theory Spec2Isabelle
  imports Main "HOL-Library.AList" "HOL-Library.Char_ord" "HOL-Library.List_Lexorder"
    "HOL-Library.Multiset"
begin

section \<open>The versioned store (backend/data)\<close>

text \<open>
  JSON values as the code handles them: opaque payloads that are stored, read back and
  sent in patches. The store keeps the text \<open>JSON.stringify\<close> produces and reads it
  back with \<open>JSON.parse\<close>; the model keeps the value itself. Numbers are the integers.
\<close>

datatype json =
    JNull
  | JBool bool
  | JNum int
  | JStr string
  | JArr "json list"
  | JObj "(string \<times> json) list"

text \<open>
  The tables of \<open>createSchemaVersion1\<close>, each a list of rows in table order. The
  column \<open>lastmodified\<close> (always \<open>now()\<close>) is read by no function of the data layer
  and is left out. \<open>space.id\<close> and \<open>client.id\<close> are primary keys and
  \<open>entry (spaceid, key)\<close> has a unique index: an insert that breaks one of them fails.
\<close>

record space_row =
  space_id :: string
  space_version :: int

record client_row =
  client_id :: string
  lastmutationid :: int

record entry_row =
  spaceid :: string
  key :: string
  val :: json
  deleted :: bool
  version :: int

record db =
  space :: "space_row list"
  client :: "client_row list"
  entry :: "entry_row list"

datatype error = UniqueViolation | NotImplemented

text \<open>\<open>select version from space where id = $1\<close>\<close>

definition selectSpace :: "db \<Rightarrow> string \<Rightarrow> space_row list" where
  "selectSpace d sid = filter (\<lambda>r. space_id r = sid) (space d)"

text \<open>\<open>insert into space (id, version, lastmodified) values ($1, $2, now())\<close>\<close>

definition insertSpace :: "db \<Rightarrow> string \<Rightarrow> int \<Rightarrow> error + db" where
  "insertSpace d sid v =
     (if selectSpace d sid \<noteq> [] then Inl UniqueViolation
      else Inr (d\<lparr>space := space d @ [\<lparr>space_id = sid, space_version = v\<rparr>]\<rparr>))"

text \<open>
  \<open>getEntry\<close>: the value of the first live row of the key, \<open>undefined\<close> (\<open>None\<close>)
  when there is none.
\<close>

definition getEntry :: "db \<Rightarrow> string \<Rightarrow> string \<Rightarrow> json option" where
  "getEntry d sid k =
     (case filter (\<lambda>r. spaceid r = sid \<and> key r = k \<and> \<not> deleted r) (entry d) of
        [] \<Rightarrow> None
      | r # _ \<Rightarrow> Some (val r))"

text \<open>
  \<open>putEntries\<close>: nothing on empty input; otherwise one
  \<open>insert ... on conflict (spaceid, key) do update\<close> over the given rows, in order. A row
  whose key is stored is overwritten where it stands (value, \<open>deleted = false\<close>, version);
  any other row is appended. The callers pass the keys of a \<open>Map\<close>, each once.
\<close>

definition upsertEntry :: "string \<Rightarrow> int \<Rightarrow> entry_row list \<Rightarrow> string \<times> json \<Rightarrow> entry_row list" where
  "upsertEntry sid ver rows kv =
     (if \<exists>r \<in> set rows. spaceid r = sid \<and> key r = fst kv
      then map (\<lambda>r. if spaceid r = sid \<and> key r = fst kv
                     then r\<lparr>val := snd kv, deleted := False, version := ver\<rparr> else r) rows
      else rows @ [\<lparr>spaceid = sid, key = fst kv, val = snd kv, deleted = False, version = ver\<rparr>])"

definition putEntries :: "db \<Rightarrow> string \<Rightarrow> (string \<times> json) list \<Rightarrow> int \<Rightarrow> db" where
  "putEntries d sid entries ver =
     (if length entries = 0 then d
      else d\<lparr>entry := foldl (upsertEntry sid ver) (entry d) entries\<rparr>)"

text \<open>
  \<open>delEntries\<close>: nothing on empty input; otherwise
  \<open>update entry set deleted = true, version = $2 where spaceid = $1 and key in (...)\<close>.
  The rows stay in the table.
\<close>

definition delEntries :: "db \<Rightarrow> string \<Rightarrow> string list \<Rightarrow> int \<Rightarrow> db" where
  "delEntries d sid keys ver =
     (if length keys = 0 then d
      else d\<lparr>entry := map (\<lambda>r. if spaceid r = sid \<and> key r \<in> set keys
                                then r\<lparr>deleted := True, version := ver\<rparr> else r) (entry d)\<rparr>)"

text \<open>
  \<open>getChangedEntries\<close>:
  \<open>select key, value, deleted from entry where spaceid = $1 and version > $2\<close>
\<close>

definition getChangedEntries :: "db \<Rightarrow> string \<Rightarrow> int \<Rightarrow> (string \<times> json \<times> bool) list" where
  "getChangedEntries d sid prevVersion =
     map (\<lambda>r. (key r, val r, deleted r))
       (filter (\<lambda>r. spaceid r = sid \<and> version r > prevVersion) (entry d))"

text \<open>\<open>getCookie\<close>: the version of the space's row, \<open>undefined\<close> without one.\<close>

definition getCookie :: "db \<Rightarrow> string \<Rightarrow> int option" where
  "getCookie d sid = (case selectSpace d sid of [] \<Rightarrow> None | r # _ \<Rightarrow> Some (space_version r))"

text \<open>\<open>setCookie\<close>: \<open>update space set version = $2, lastmodified = now() where id = $1\<close>\<close>

definition setCookie :: "db \<Rightarrow> string \<Rightarrow> int \<Rightarrow> db" where
  "setCookie d sid ver =
     d\<lparr>space := map (\<lambda>r. if space_id r = sid then r\<lparr>space_version := ver\<rparr> else r) (space d)\<rparr>"

text \<open>\<open>getLastMutationID\<close>\<close>

definition getLastMutationID :: "db \<Rightarrow> string \<Rightarrow> int option" where
  "getLastMutationID d cid =
     (case filter (\<lambda>r. client_id r = cid) (client d) of
        [] \<Rightarrow> None
      | r # _ \<Rightarrow> Some (lastmutationid r))"

section \<open>The mutation transaction (backend/replicache-transaction)\<close>

text \<open>
  The overlay \<open>_cache\<close> is a JavaScript \<open>Map\<close>: an association list in insertion
  order, in which \<open>set\<close> overwrites a present key where it stands and appends an absent
  one (\<open>AList.update\<close>), and \<open>get\<close> is \<open>map_of\<close>. The executor is the store, passed
  to each method; only \<open>flush\<close> changes it.
\<close>

record cache_entry =
  cvalue :: "json option"
  dirty :: bool

record tx =
  tx_spaceID :: string
  tx_clientID :: string
  tx_version :: int
  tx_cache :: "(string \<times> cache_entry) list"

definition newTx :: "string \<Rightarrow> string \<Rightarrow> int \<Rightarrow> tx" where
  "newTx sid cid ver = \<lparr>tx_spaceID = sid, tx_clientID = cid, tx_version = ver, tx_cache = []\<rparr>"

definition put :: "tx \<Rightarrow> string \<Rightarrow> json \<Rightarrow> tx" where
  "put t k v = t\<lparr>tx_cache := AList.update k \<lparr>cvalue = Some v, dirty = True\<rparr> (tx_cache t)\<rparr>"

definition get :: "db \<Rightarrow> tx \<Rightarrow> string \<Rightarrow> json option \<times> tx" where
  "get d t k =
     (case map_of (tx_cache t) k of
        Some e \<Rightarrow> (cvalue e, t)
      | None \<Rightarrow>
          (let v = getEntry d (tx_spaceID t) k
           in (v, t\<lparr>tx_cache := AList.update k \<lparr>cvalue = v, dirty = False\<rparr> (tx_cache t)\<rparr>)))"

definition has :: "db \<Rightarrow> tx \<Rightarrow> string \<Rightarrow> bool \<times> tx" where
  "has d t k = (let (v, t') = get d t k in (v \<noteq> None, t'))"

definition del :: "db \<Rightarrow> tx \<Rightarrow> string \<Rightarrow> bool \<times> tx" where
  "del d t k =
     (let (had, t') = has d t k
      in (had, t'\<lparr>tx_cache := AList.update k \<lparr>cvalue = None, dirty = True\<rparr> (tx_cache t')\<rparr>))"

text \<open>\<open>isEmpty\<close>, \<open>scan\<close> and \<open>scanAll\<close> throw.\<close>

definition isEmpty :: "db \<Rightarrow> tx \<Rightarrow> error + bool" where
  "isEmpty d t = Inl NotImplemented"

text \<open>
  \<open>flush\<close>: the dirty entries in \<open>Map\<close> order, split by whether they hold a value, then
  \<open>delEntries\<close> and \<open>putEntries\<close>, both started before either is awaited, in this
  order, on the one connection of the executor.
\<close>

definition dirtyEntries :: "tx \<Rightarrow> (string \<times> cache_entry) list" where
  "dirtyEntries t = filter (\<lambda>ke. dirty (snd ke)) (tx_cache t)"

definition entriesToPut :: "tx \<Rightarrow> (string \<times> json) list" where
  "entriesToPut t =
     concat (map (\<lambda>ke. case cvalue (snd ke) of Some v \<Rightarrow> [(fst ke, v)] | None \<Rightarrow> [])
       (dirtyEntries t))"

definition keysToDel :: "tx \<Rightarrow> string list" where
  "keysToDel t = map fst (filter (\<lambda>ke. cvalue (snd ke) = None) (dirtyEntries t))"

definition flush :: "db \<Rightarrow> tx \<Rightarrow> db" where
  "flush d t =
     putEntries (delEntries d (tx_spaceID t) (keysToDel t) (tx_version t))
       (tx_spaceID t) (entriesToPut t) (tx_version t)"

text \<open>A caller's use of one transaction: the method calls it makes, in order.\<close>

datatype tx_op = Put string json | Del string | Get string | Has string

fun apply_op :: "db \<Rightarrow> tx \<Rightarrow> tx_op \<Rightarrow> tx" where
  "apply_op d t (Put k v) = put t k v"
| "apply_op d t (Del k) = snd (del d t k)"
| "apply_op d t (Get k) = snd (get d t k)"
| "apply_op d t (Has k) = snd (has d t k)"

definition run_ops :: "db \<Rightarrow> tx \<Rightarrow> tx_op list \<Rightarrow> tx" where
  "run_ops d t ops = foldl (apply_op d) t ops"

fun is_read :: "tx_op \<Rightarrow> bool" where
  "is_read (Get k) = True"
| "is_read (Has k) = True"
| "is_read _ = False"

section \<open>Space initialisation (backend/data, initSpace)\<close>

definition sampleSpaceID :: string where
  "sampleSpaceID = ''sampleSpaceID''"

definition initialVersion :: int where
  "initialVersion = 1"

text \<open>
  \<open>insert into entry (...) select $1, key, value, deleted, version, lastmodified
  from entry where spaceid = $2\<close>: the rows of the source space, retagged, are appended;
  the statement fails when one of them meets a stored key of the target space, or two of
  them share a key.
\<close>

definition copyEntries :: "db \<Rightarrow> string \<Rightarrow> string \<Rightarrow> error + db" where
  "copyEntries d spaceID src =
     (let new = map (\<lambda>r. r\<lparr>spaceid := spaceID\<rparr>) (filter (\<lambda>r. spaceid r = src) (entry d))
      in if (\<exists>n \<in> set new. \<exists>r \<in> set (entry d). spaceid r = spaceID \<and> key r = key n)
            \<or> \<not> distinct (map key new)
         then Inl UniqueViolation
         else Inr (d\<lparr>entry := entry d @ new\<rparr>))"

text \<open>
  \<open>initSpace\<close>. \<open>putIssue\<close> (frontend/issue) is not among the sources: it is a
  parameter, the transaction calls it makes for one issue. \<open>getSampleIssues\<close> is the list
  it resolves to. A failing statement ends the function with the error (the enclosing
  database transaction is then rolled back).
\<close>

definition seedSampleSpace :: "'iss list \<Rightarrow> ('iss \<Rightarrow> tx_op list) \<Rightarrow> db \<Rightarrow> error + db" where
  "seedSampleSpace getSampleIssues putIssue d =
     (case insertSpace d sampleSpaceID initialVersion of
        Inl e \<Rightarrow> Inl e
      | Inr d1 \<Rightarrow>
          Inr (flush d1
                 (foldl (\<lambda>t issue. run_ops d1 t (putIssue issue))
                    (newTx sampleSpaceID ''fake-client-id-for-server-init'' initialVersion)
                    getSampleIssues)))"

definition initSpace :: "'iss list \<Rightarrow> ('iss \<Rightarrow> tx_op list) \<Rightarrow> db \<Rightarrow> string \<Rightarrow> error + db" where
  "initSpace getSampleIssues putIssue d spaceID =
     (if length (selectSpace d spaceID) \<noteq> 0 then Inr d
      else
        case (if length (selectSpace d sampleSpaceID) = 0
              then seedSampleSpace getSampleIssues putIssue d
              else Inr d) of
          Inl e \<Rightarrow> Inl e
        | Inr d2 \<Rightarrow>
            (case insertSpace d2 spaceID initialVersion of
               Inl e \<Rightarrow> Inl e
             | Inr d3 \<Rightarrow> copyEntries d3 spaceID sampleSpaceID))"

section \<open>The pull handler (pages/api/replicache-pull)\<close>

text \<open>
  The request as \<open>pullRequest.parse\<close> returns it, and the response sent. An entry of
  the handler is \<open>[key, value, deleted?]\<close>.
\<close>

record cookie =
  cookie_version :: int
  cookie_endKey :: "string option"

record pull_request =
  req_clientID :: string
  req_cookie :: "cookie option"

record response_cookie =
  resp_version :: "int option"
  resp_endKey :: "string option"

datatype patch_op = PatchPut string json | PatchDel string

record pull_response =
  lastMutationID :: int
  cookie :: response_cookie
  patch :: "patch_op list"

type_synonym pull_entry = "string \<times> json \<times> bool option"

fun patch_key :: "patch_op \<Rightarrow> string" where
  "patch_key (PatchPut k v) = k"
| "patch_key (PatchDel k) = k"

text \<open>
  Modelled from the spec: \<open>getIssueMeta\<close> is imported from backend/data but is not in
  the data layer among the sources. The specification has it return all "metadata" entries
  of the space, a curated subset of keys; which keys is the parameter \<open>isIssueMeta\<close>.
\<close>

definition getIssueMeta :: "(string \<Rightarrow> bool) \<Rightarrow> db \<Rightarrow> string \<Rightarrow> pull_entry list" where
  "getIssueMeta isIssueMeta d sid =
     map (\<lambda>r. (key r, val r, Some (deleted r)))
       (filter (\<lambda>r. spaceid r = sid \<and> isIssueMeta (key r)) (entry d))"

text \<open>
  Modelled from the spec: \<open>getNonIssueMetaEntries\<close> is imported from backend/data but is
  not in the data layer among the sources. The specification has it fetch up to the page
  size of non-metadata entries ordered by key, starting strictly after \<open>endKey\<close>.
\<close>

definition getNonIssueMetaEntries ::
    "(string \<Rightarrow> bool) \<Rightarrow> db \<Rightarrow> string \<Rightarrow> string \<Rightarrow> nat \<Rightarrow> pull_entry list" where
  "getNonIssueMetaEntries isIssueMeta d sid endKey pageSize =
     take pageSize
       (sort_key fst
          (map (\<lambda>r. (key r, val r, Some (deleted r)))
             (filter (\<lambda>r. spaceid r = sid \<and> \<not> isIssueMeta (key r) \<and> endKey < key r) (entry d))))"

text \<open>
  Modelled from the spec: \<open>getVersion\<close> is imported from backend/data but is not in the
  data layer among the sources. The specification has it give the current space version,
  which \<open>getCookie\<close> of the data layer reads.
\<close>

definition getVersion :: "db \<Rightarrow> string \<Rightarrow> int option" where
  "getVersion d sid = getCookie d sid"

definition limit :: nat where
  "limit = 3000"

text \<open>
  The value of the control entry, \<open>{endKey: responseEndKey}\<close>, as \<open>res.json\<close> writes
  it: a property that is \<open>undefined\<close> is left out.
\<close>

definition partialSync :: "string option \<Rightarrow> pull_entry" where
  "partialSync responseEndKey =
     (''control/partialSync'',
      JObj (case responseEndKey of None \<Rightarrow> [] | Some k \<Rightarrow> [(''endKey'', JStr k)]),
      None)"

text \<open>The callback of \<open>transact\<close>, after \<open>initSpace\<close>: it only reads.\<close>

definition pullEntries ::
    "(string \<Rightarrow> bool) \<Rightarrow> db \<Rightarrow> string \<Rightarrow> pull_request
       \<Rightarrow> pull_entry list \<times> int option \<times> response_cookie" where
  "pullEntries isIssueMeta d spaceID req =
     (case req_cookie req of
        None \<Rightarrow>
          (getIssueMeta isIssueMeta d spaceID,
           getLastMutationID d (req_clientID req),
           \<lparr>resp_version = getVersion d spaceID, resp_endKey = Some ''''\<rparr>)
      | Some requestCookie \<Rightarrow>
          (let entries = map (\<lambda>(k, v, dl). (k, v, Some dl))
                           (getChangedEntries d spaceID (cookie_version requestCookie));
               (entries', responseEndKey) =
                 (case cookie_endKey requestCookie of
                    None \<Rightarrow> (entries, None)
                  | Some endKey \<Rightarrow>
                      (let incrementalEntries =
                             getNonIssueMetaEntries isIssueMeta d spaceID endKey limit;
                           initialSyncDone = (length incrementalEntries < limit);
                           responseEndKey =
                             (if initialSyncDone then None
                              else Some (fst (last incrementalEntries)))
                       in ((entries @ incrementalEntries) @ [partialSync responseEndKey],
                           responseEndKey)))
           in (entries',
               getLastMutationID d (req_clientID req),
               \<lparr>resp_version = getVersion d spaceID, resp_endKey = responseEndKey\<rparr>)))"

definition toPatch :: "pull_entry list \<Rightarrow> patch_op list" where
  "toPatch entries =
     map (\<lambda>(k, v, dl). if dl = Some True then PatchDel k else PatchPut k v) entries"

text \<open>
  The handler, on a database whose schema exists (\<open>createDatabase\<close> then does nothing).
  It passes \<open>initSpace\<close> a second generator, for comments, that the \<open>initSpace\<close> of
  the sources does not take.
\<close>

definition pull ::
    "(string \<Rightarrow> bool) \<Rightarrow> 'iss list \<Rightarrow> ('iss \<Rightarrow> tx_op list) \<Rightarrow> db \<Rightarrow> string \<Rightarrow> pull_request
       \<Rightarrow> error + pull_response \<times> db" where
  "pull isIssueMeta getSampleIssues putIssue d spaceID req =
     (case initSpace getSampleIssues putIssue d spaceID of
        Inl e \<Rightarrow> Inl e
      | Inr d' \<Rightarrow>
          (let (entries, lastMutationID, responseCookie) = pullEntries isIssueMeta d' spaceID req
           in Inr (\<lparr>lastMutationID = (case lastMutationID of None \<Rightarrow> 0 | Some n \<Rightarrow> n),
                     cookie = responseCookie,
                     patch = toPatch entries\<rparr>, d')))"

section \<open>The client reducer (frontend/app)\<close>

text \<open>
  \<open>Issue\<close>, \<open>Status\<close>, \<open>Priority\<close> and \<open>Order\<close> come from frontend/issue, which is
  not among the sources. The reducer reads an issue's \<open>id\<close>, \<open>status\<close>, \<open>priority\<close>,
  \<open>created\<close> and \<open>modified\<close>; statuses and priorities are type parameters; \<open>Order\<close>
  has the two members the \<open>switch\<close> in \<open>order\<close> covers. Timestamps are integers.
\<close>

datatype Order = CREATED | MODIFIED

record ('s, 'p) Issue =
  issue_id :: string
  status :: 's
  priority :: 'p
  created :: int
  modified :: int

text \<open>
  The class \<open>Filter\<close>: a set that is given is a constraint, also when it is empty.
\<close>

record ('s, 'p) Filter =
  filter_status :: "'s set option"
  filter_priority :: "'p set option"

definition Filter_filter :: "('s, 'p) Filter \<Rightarrow> ('s, 'p) Issue \<Rightarrow> bool" where
  "Filter_filter f issue =
     (if (case filter_status f of Some s \<Rightarrow> status issue \<notin> s | None \<Rightarrow> False) then False
      else if (case filter_priority f of Some p \<Rightarrow> priority issue \<notin> p | None \<Rightarrow> False) then False
      else True)"

definition hasConstraints :: "('s, 'p) Filter \<Rightarrow> bool" where
  "hasConstraints f = (filter_status f \<noteq> None \<or> filter_priority f \<noteq> None)"

record ('s, 'p) Filters =
  viewFilter :: "('s, 'p) Filter"
  additionalFilter :: "('s, 'p) Filter"

definition Filters_filter :: "('s, 'p) Filters \<Rightarrow> ('s, 'p) Issue \<Rightarrow> bool" where
  "Filters_filter fs issue =
     (Filter_filter (viewFilter fs) issue \<and> Filter_filter (additionalFilter fs) issue)"

text \<open>
  \<open>allIssuesMap\<close> is a JavaScript \<open>Map\<close>, again an association list in insertion
  order: \<open>set\<close> is \<open>AList.update\<close>, \<open>delete\<close> is \<open>AList.delete\<close>, \<open>values()\<close>
  is \<open>map snd\<close>.
\<close>

record ('s, 'p) State =
  allIssuesMap :: "(string \<times> ('s, 'p) Issue) list"
  viewIssueCount :: int
  filteredIssues :: "('s, 'p) Issue list"
  filters :: "('s, 'p) Filters"
  issueOrder :: Order

datatype DiffOp =
    DiffAdd string json
  | DiffDel string json
  | DiffChange string json json

datatype ('s, 'p) Action =
    Init "(string \<times> ('s, 'p) Issue) list"
  | Diff "DiffOp list"
  | SetFilters "('s, 'p) Filters"
  | SetIssueOrder Order

text \<open>
  The sort key \<open>Number.MAX_SAFE_INTEGER - orderValue + "-" + issue.id\<close>: the difference
  is a number, written in decimal when \<open>+\<close> joins it to the string (exactly so for
  integer timestamps of magnitude up to \<open>MAX_SAFE_INTEGER\<close>), and the keys are compared
  as strings.
\<close>

definition MAX_SAFE_INTEGER :: int where
  "MAX_SAFE_INTEGER = 9007199254740991"

definition digit_char :: "nat \<Rightarrow> char" where
  "digit_char d = ''0123456789'' ! d"

fun digits :: "nat \<Rightarrow> string" where
  "digits n = (if n < 10 then [digit_char n] else digits (n div 10) @ [digit_char (n mod 10)])"

declare digits.simps [simp del]

definition numberToString :: "int \<Rightarrow> string" where
  "numberToString n = (if n < 0 then ''-'' @ digits (nat (- n)) else digits (nat n))"

definition order :: "Order \<Rightarrow> ('s, 'p) Issue \<Rightarrow> string" where
  "order io issue =
     (let orderValue = (case io of CREATED \<Rightarrow> created issue | MODIFIED \<Rightarrow> modified issue)
      in numberToString (MAX_SAFE_INTEGER - orderValue) @ ''-'' @ issue_id issue)"

text \<open>
  lodash: \<open>sortBy\<close> is a stable sort, ascending in the iteratee; \<open>sortedIndexBy\<close> is
  the binary search for the lowest index at which the value can be inserted, written out
  as lodash runs it (its result on a list that is not sorted depends on the probes). Its
  last step, the minimum with the largest array index 4294967294, changes nothing for an
  array of fewer than 4294967295 elements and is left out.
\<close>

definition sortBy :: "'a list \<Rightarrow> ('a \<Rightarrow> 'k::linorder) \<Rightarrow> 'a list" where
  "sortBy xs f = sort_key f xs"

function baseSortedIndexBy :: "('a \<Rightarrow> 'k::linorder) \<Rightarrow> 'a list \<Rightarrow> 'k \<Rightarrow> nat \<Rightarrow> nat \<Rightarrow> nat" where
  "baseSortedIndexBy f xs v low high =
     (if low < high
      then (let mid = (low + high) div 2
            in if f (xs ! mid) < v
               then baseSortedIndexBy f xs v (mid + 1) high
               else baseSortedIndexBy f xs v low mid)
      else high)"
  by pat_completeness auto
termination
  by (relation "measure (\<lambda>(f, xs, v, low, high). high - low)") auto

declare baseSortedIndexBy.simps [simp del]

definition sortedIndexBy :: "'a list \<Rightarrow> 'a \<Rightarrow> ('a \<Rightarrow> 'k::linorder) \<Rightarrow> nat" where
  "sortedIndexBy xs x f =
     (if length xs = 0 then 0 else baseSortedIndexBy f xs (f x) 0 (length xs))"

definition filterAndSort ::
    "('s, 'p) Filters \<Rightarrow> Order \<Rightarrow> ('s, 'p) Issue list \<Rightarrow> ('s, 'p) Issue list" where
  "filterAndSort fs io issues = sortBy (filter (Filters_filter fs) issues) (order io)"

definition countViewIssues :: "('s, 'p) Filters \<Rightarrow> ('s, 'p) Issue list \<Rightarrow> int" where
  "countViewIssues fs issues =
     foldl (\<lambda>count issue. if Filter_filter (viewFilter fs) issue then count + 1 else count) 0 issues"

text \<open>\<open>xs.splice(i, 0, x)\<close> and \<open>xs.splice(i, 1)\<close>\<close>

definition splice_in :: "nat \<Rightarrow> 'a \<Rightarrow> 'a list \<Rightarrow> 'a list" where
  "splice_in i x xs = take i xs @ [x] @ drop i xs"

definition splice_out :: "nat \<Rightarrow> 'a list \<Rightarrow> 'a list" where
  "splice_out i xs = take i xs @ drop (i + 1) xs"

text \<open>
  One operation of a diff on the three locals of the \<open>"diff"\<close> case.
  \<open>issueFromKeyAndValue\<close> (frontend/issue) is a parameter.
\<close>

fun applyDiffOp ::
    "(string \<Rightarrow> json \<Rightarrow> ('s, 'p) Issue) \<Rightarrow> ('s, 'p) Filters \<Rightarrow> Order
       \<Rightarrow> (string \<times> ('s, 'p) Issue) list \<times> int \<times> ('s, 'p) Issue list \<Rightarrow> DiffOp
       \<Rightarrow> (string \<times> ('s, 'p) Issue) list \<times> int \<times> ('s, 'p) Issue list" where
  "applyDiffOp issueFromKeyAndValue fs io (newAllIssuesMap, newViewIssueCount, newFilteredIssues)
       (DiffAdd k newValue) =
     (let newIssue = issueFromKeyAndValue k newValue
      in (AList.update k newIssue newAllIssuesMap,
          (if Filter_filter (viewFilter fs) newIssue then newViewIssueCount + 1
           else newViewIssueCount),
          (if Filters_filter fs newIssue
           then splice_in (sortedIndexBy newFilteredIssues newIssue (order io)) newIssue
                  newFilteredIssues
           else newFilteredIssues)))"
| "applyDiffOp issueFromKeyAndValue fs io (newAllIssuesMap, newViewIssueCount, newFilteredIssues)
       (DiffDel k oldValue) =
     (let oldIssue = issueFromKeyAndValue k oldValue;
          index = sortedIndexBy newFilteredIssues oldIssue (order io)
      in (AList.delete k newAllIssuesMap,
          (if Filter_filter (viewFilter fs) oldIssue then newViewIssueCount - 1
           else newViewIssueCount),
          (if index < length newFilteredIssues
               \<and> issue_id (newFilteredIssues ! index) = issue_id oldIssue
           then splice_out index newFilteredIssues
           else newFilteredIssues)))"
| "applyDiffOp issueFromKeyAndValue fs io (newAllIssuesMap, newViewIssueCount, newFilteredIssues)
       (DiffChange k oldValue newValue) =
     (let oldIssue = issueFromKeyAndValue k oldValue;
          index = sortedIndexBy newFilteredIssues oldIssue (order io);
          count1 = (if Filter_filter (viewFilter fs) oldIssue then newViewIssueCount - 1
                    else newViewIssueCount);
          list1 = (if index < length newFilteredIssues
                       \<and> issue_id (newFilteredIssues ! index) = issue_id oldIssue
                   then splice_out index newFilteredIssues
                   else newFilteredIssues);
          newIssue = issueFromKeyAndValue k newValue
      in (AList.update k newIssue newAllIssuesMap,
          (if Filter_filter (viewFilter fs) newIssue then count1 + 1 else count1),
          (if Filters_filter fs newIssue
           then splice_in (sortedIndexBy list1 newIssue (order io)) newIssue list1
           else list1)))"

definition reducer ::
    "(string \<Rightarrow> json \<Rightarrow> ('s, 'p) Issue) \<Rightarrow> ('s, 'p) State \<Rightarrow> ('s, 'p) Action \<Rightarrow> ('s, 'p) State" where
  "reducer issueFromKeyAndValue state action =
     (let fs = (case action of SetFilters f \<Rightarrow> f | _ \<Rightarrow> filters state);
          io = (case action of SetIssueOrder ord \<Rightarrow> ord | _ \<Rightarrow> issueOrder state)
      in case action of
           Init m \<Rightarrow>
             state\<lparr>allIssuesMap := m,
                   viewIssueCount := countViewIssues fs (map snd m),
                   filteredIssues := filterAndSort fs io (map snd m)\<rparr>
         | Diff diff \<Rightarrow>
             (let (newAllIssuesMap, newViewIssueCount, newFilteredIssues) =
                    foldl (applyDiffOp issueFromKeyAndValue fs io)
                      (allIssuesMap state, viewIssueCount state, filteredIssues state) diff
              in state\<lparr>allIssuesMap := newAllIssuesMap,
                       viewIssueCount := newViewIssueCount,
                       filteredIssues := newFilteredIssues\<rparr>)
         | SetFilters f \<Rightarrow>
             state\<lparr>viewIssueCount := countViewIssues fs (map snd (allIssuesMap state)),
                   filters := f,
                   filteredIssues := filterAndSort fs io (map snd (allIssuesMap state))\<rparr>
         | SetIssueOrder ord \<Rightarrow>
             state\<lparr>filteredIssues := sortBy (filteredIssues state) (order io),
                   issueOrder := ord\<rparr>)"

section \<open>What one flush leaves in the store\<close>

text \<open>The rows stored for a key of a space, in table order.\<close>

definition rowsOf :: "db \<Rightarrow> string \<Rightarrow> string \<Rightarrow> entry_row list" where
  "rowsOf d sid k = filter (\<lambda>r. spaceid r = sid \<and> key r = k) (entry d)"



section \<open>Well-formed diffs and reachable reducer states\<close>

text \<open>
  What the reducer is promised by its callers. \<open>issueFromKeyAndValue\<close> derives the id of
  an issue from its key, so two issues with the same id sit under the same key; the map
  given to \<open>init\<close> was built with it; a diff adds only absent keys and deletes or
  changes a key with the value that is stored. A state is reachable when an \<open>init\<close>
  and then any number of such diffs, filter changes and order changes lead to it.
\<close>

definition id_determines_key :: "(string \<Rightarrow> json \<Rightarrow> ('s, 'p) Issue) \<Rightarrow> bool" where
  "id_determines_key f = (\<forall>k v k' v'. issue_id (f k v) = issue_id (f k' v') \<longrightarrow> k = k')"

definition wf_map :: "(string \<Rightarrow> json \<Rightarrow> ('s, 'p) Issue) \<Rightarrow> (string \<times> ('s, 'p) Issue) list \<Rightarrow> bool" where
  "wf_map f m = (distinct (map fst m) \<and> (\<forall>ke \<in> set m. \<exists>v. snd ke = f (fst ke) v))"

fun wf_op :: "(string \<Rightarrow> json \<Rightarrow> ('s, 'p) Issue) \<Rightarrow> (string \<times> ('s, 'p) Issue) list \<Rightarrow> DiffOp \<Rightarrow> bool" where
  "wf_op f m (DiffAdd k newValue) = (map_of m k = None)"
| "wf_op f m (DiffDel k oldValue) = (map_of m k = Some (f k oldValue))"
| "wf_op f m (DiffChange k oldValue newValue) = (map_of m k = Some (f k oldValue))"

fun wf_diff ::
    "(string \<Rightarrow> json \<Rightarrow> ('s, 'p) Issue) \<Rightarrow> ('s, 'p) Filters \<Rightarrow> Order
       \<Rightarrow> (string \<times> ('s, 'p) Issue) list \<times> int \<times> ('s, 'p) Issue list \<Rightarrow> DiffOp list \<Rightarrow> bool" where
  "wf_diff f fs io st [] = True"
| "wf_diff f fs io st (x # xs) = (wf_op f (fst st) x \<and> wf_diff f fs io (applyDiffOp f fs io st x) xs)"

inductive reachable :: "(string \<Rightarrow> json \<Rightarrow> ('s, 'p) Issue) \<Rightarrow> ('s, 'p) State \<Rightarrow> bool"
  for f :: "string \<Rightarrow> json \<Rightarrow> ('s, 'p) Issue" where
  reach_init: "wf_map f m \<Longrightarrow> reachable f (reducer f s (Init m))"
| reach_diff:
    "reachable f s \<Longrightarrow>
     wf_diff f (filters s) (issueOrder s) (allIssuesMap s, viewIssueCount s, filteredIssues s) d \<Longrightarrow>
     reachable f (reducer f s (Diff d))"
| reach_setFilters: "reachable f s \<Longrightarrow> reachable f (reducer f s (SetFilters fs))"
| reach_setIssueOrder: "reachable f s \<Longrightarrow> reachable f (reducer f s (SetIssueOrder io))"

text \<open>
  The invariant of the reducer's list: it is strictly ascending in the sort key and holds
  exactly the issues of a set \<open>V\<close> (the values of the map) that pass the combined
  filter; together with the well-formedness of the map, for the locals of the \<open>"diff"\<close>
  case and for a state.
\<close>

definition list_inv :: "Order \<Rightarrow> ('s, 'p) Filters \<Rightarrow> ('s, 'p) Issue set \<Rightarrow> ('s, 'p) Issue list \<Rightarrow> bool" where
  "list_inv io fs V l =
     (sorted_wrt (\<lambda>a b. order io a < order io b) l \<and> set l = {i \<in> V. Filters_filter fs i})"

definition step_inv ::
    "(string \<Rightarrow> json \<Rightarrow> ('s, 'p) Issue) \<Rightarrow> ('s, 'p) Filters \<Rightarrow> Order
       \<Rightarrow> (string \<times> ('s, 'p) Issue) list \<times> int \<times> ('s, 'p) Issue list \<Rightarrow> bool" where
  "step_inv f fs io st = (wf_map f (fst st) \<and> list_inv io fs (snd ` set (fst st)) (snd (snd st)))"

definition state_inv :: "(string \<Rightarrow> json \<Rightarrow> ('s, 'p) Issue) \<Rightarrow> ('s, 'p) State \<Rightarrow> bool" where
  "state_inv f s =
     step_inv f (filters s) (issueOrder s) (allIssuesMap s, viewIssueCount s, filteredIssues s)"

text \<open>
  The order of the list in the words of the specification: descending in the created or
  modified time, ties broken by the issue id.
\<close>

definition time_of :: "Order \<Rightarrow> ('s, 'p) Issue \<Rightarrow> int" where
  "time_of io i = (case io of CREATED \<Rightarrow> created i | MODIFIED \<Rightarrow> modified i)"

definition newer_first :: "Order \<Rightarrow> ('s, 'p) Issue \<Rightarrow> ('s, 'p) Issue \<Rightarrow> bool" where
  "newer_first io a b =
     (time_of io b < time_of io a \<or> (time_of io a = time_of io b \<and> issue_id a < issue_id b))"

section \<open>Sample stores and states\<close>

text \<open>A small store: one space with a live entry and a tombstone.\<close>

definition d0 :: db where
  "d0 = \<lparr>space = [\<lparr>space_id = ''s'', space_version = 2\<rparr>], client = [],
         entry = [\<lparr>spaceid = ''s'', key = ''a'', val = JNum 1, deleted = False, version = 1\<rparr>,
                  \<lparr>spaceid = ''s'', key = ''b'', val = JNum 2, deleted = True, version = 2\<rparr>]\<rparr>"

text \<open>
  An empty database, two sample issues put under one key each, the store after the first
  space \<open>s1\<close> was initialised from them, and a metadata subset (the keys under
  \<open>issueMeta/\<close>).
\<close>

definition fresh_db :: db where
  "fresh_db = \<lparr>space = [], client = [], entry = []\<rparr>"

definition sample_issues :: "(string \<times> json) list" where
  "sample_issues = [(''issueMeta/1'', JStr ''first''), (''issueBody/1'', JStr ''long text'')]"

definition sample_putIssue :: "string \<times> json \<Rightarrow> tx_op list" where
  "sample_putIssue i = [Put (fst i) (snd i)]"

definition seeded_db :: db where
  "seeded_db =
     \<lparr>space = [\<lparr>space_id = ''sampleSpaceID'', space_version = 1\<rparr>,
               \<lparr>space_id = ''s1'', space_version = 1\<rparr>],
      client = [],
      entry = [\<lparr>spaceid = ''sampleSpaceID'', key = ''issueMeta/1'', val = JStr ''first'',
                 deleted = False, version = 1\<rparr>,
               \<lparr>spaceid = ''sampleSpaceID'', key = ''issueBody/1'', val = JStr ''long text'',
                 deleted = False, version = 1\<rparr>,
               \<lparr>spaceid = ''s1'', key = ''issueMeta/1'', val = JStr ''first'',
                 deleted = False, version = 1\<rparr>,
               \<lparr>spaceid = ''s1'', key = ''issueBody/1'', val = JStr ''long text'',
                 deleted = False, version = 1\<rparr>]\<rparr>"

definition sample_isIssueMeta :: "string \<Rightarrow> bool" where
  "sample_isIssueMeta k = (take 10 k = ''issueMeta/'')"

text \<open>
  The store \<open>seeded_db\<close> after key \<open>issueBody/1\<close> of space \<open>s1\<close> was deleted at
  version 2 and key \<open>issueMeta/1\<close> rewritten at version 3, the space version set each
  time.
\<close>

definition later_db :: db where
  "later_db =
     setCookie
       (putEntries
          (setCookie (delEntries seeded_db ''s1'' [''issueBody/1''] 2) ''s1'' 2) ''s1''
          [(''issueMeta/1'', JStr ''edited'')] 3)
       ''s1'' 3"

text \<open>
  The store \<open>seeded_db\<close> after key \<open>issueBody/1\<close> of space \<open>s1\<close> was deleted at
  version 2 and put again at version 3, the space version set each time.
\<close>

definition restored_db :: db where
  "restored_db =
     setCookie
       (putEntries
          (setCookie (delEntries seeded_db ''s1'' [''issueBody/1''] 2) ''s1'' 2) ''s1''
          [(''issueBody/1'', JStr ''restored'')] 3)
       ''s1'' 3"

text \<open>
  Sample issues for the reducer: statuses and priorities as the sources name them, and an
  \<open>issueFromKeyAndValue\<close> that takes the key as the issue's id and reads the other
  fields from the value.
\<close>

datatype sample_status = BACKLOG | TODO | IN_PROGRESS

datatype sample_priority = NONE | LOW | MEDIUM | HIGH | URGENT

fun json_field :: "json \<Rightarrow> string \<Rightarrow> json" where
  "json_field (JObj kvs) k = (case map_of kvs k of Some v \<Rightarrow> v | None \<Rightarrow> JNull)"
| "json_field v k = JNull"

fun json_int :: "json \<Rightarrow> int" where
  "json_int (JNum n) = n"
| "json_int v = 0"

fun json_status :: "json \<Rightarrow> sample_status" where
  "json_status (JStr s) =
     (if s = ''TODO'' then TODO else if s = ''IN_PROGRESS'' then IN_PROGRESS else BACKLOG)"
| "json_status v = BACKLOG"

fun json_priority :: "json \<Rightarrow> sample_priority" where
  "json_priority (JStr s) = (if s = ''HIGH'' then HIGH else if s = ''LOW'' then LOW else NONE)"
| "json_priority v = NONE"

definition sample_issueFromKeyAndValue ::
    "string \<Rightarrow> json \<Rightarrow> (sample_status, sample_priority) Issue" where
  "sample_issueFromKeyAndValue k v =
     \<lparr>issue_id = k,
      status = json_status (json_field v ''status''),
      priority = json_priority (json_field v ''priority''),
      created = json_int (json_field v ''created''),
      modified = json_int (json_field v ''modified'')\<rparr>"

definition issue_value :: "string \<Rightarrow> string \<Rightarrow> int \<Rightarrow> int \<Rightarrow> json" where
  "issue_value st pr c m =
     JObj [(''status'', JStr st), (''priority'', JStr pr), (''created'', JNum c),
           (''modified'', JNum m)]"

text \<open>
  The "active" view with no additional filter, the state the reducer starts from, and three
  issue values.
\<close>

definition active_filters :: "(sample_status, sample_priority) Filters" where
  "active_filters =
     \<lparr>viewFilter = \<lparr>filter_status = Some {IN_PROGRESS, TODO}, filter_priority = None\<rparr>,
      additionalFilter = \<lparr>filter_status = None, filter_priority = None\<rparr>\<rparr>"

definition empty_state :: "(sample_status, sample_priority) State" where
  "empty_state =
     \<lparr>allIssuesMap = [], viewIssueCount = 0, filteredIssues = [],
      filters = active_filters, issueOrder = MODIFIED\<rparr>"

definition issue_a :: json where
  "issue_a = issue_value ''TODO'' ''HIGH'' 1000 5000"

definition issue_b :: json where
  "issue_b = issue_value ''IN_PROGRESS'' ''LOW'' 2000 4000"

definition issue_c :: json where
  "issue_c = issue_value ''BACKLOG'' ''LOW'' 3000 6000"

text \<open>
  States of the reducer for the sample issues: after \<open>init\<close> with issue \<open>a\<close>, and
  after a diff that adds \<open>b\<close> and \<open>c\<close>, changes \<open>c\<close> and deletes \<open>a\<close>.
\<close>

definition state_a :: "(sample_status, sample_priority) State" where
  "state_a =
     reducer sample_issueFromKeyAndValue empty_state
       (Init [(''a'', sample_issueFromKeyAndValue ''a'' issue_a)])"

definition diff_bc :: "DiffOp list" where
  "diff_bc =
     [DiffAdd ''b'' issue_b, DiffAdd ''c'' issue_c, DiffChange ''c'' issue_c issue_a,
      DiffDel ''a'' issue_a]"

definition state_bc :: "(sample_status, sample_priority) State" where
  "state_bc = reducer sample_issueFromKeyAndValue state_a (Diff diff_bc)"

section \<open>The transaction's reads and deletes\<close>

lemma get_overlay:
  "fst (get d t k) =
     (case map_of (tx_cache t) k of Some e \<Rightarrow> cvalue e | None \<Rightarrow> getEntry d (tx_spaceID t) k)"
  by (simp add: get_def Let_def split: option.splits)

lemma del_cache:
  "map_of (tx_cache (snd (del d t k))) k = Some \<lparr>cvalue = None, dirty = True\<rparr>"
  by (simp add: del_def has_def get_def Let_def update_conv' split: option.splits prod.splits)

text \<open>
  C9. In every transaction state and for every key, \<open>del\<close> returns true exactly when
  \<open>get\<close> just before it returns a value, where \<open>get\<close> answers from the overlay when
  the key is cached and from the store otherwise. After \<open>del\<close> the key's overlay entry
  is dirty and holds no value, so \<open>get\<close> and \<open>has\<close> in the same transaction answer
  \<open>undefined\<close> and false, whatever the store holds.
\<close>

theorem del_reports_presence:
  "fst (del d t k) = (fst (get d t k) \<noteq> None)
   \<and> fst (get d t k) =
       (case map_of (tx_cache t) k of Some e \<Rightarrow> cvalue e | None \<Rightarrow> getEntry d (tx_spaceID t) k)
   \<and> map_of (tx_cache (snd (del d t k))) k = Some \<lparr>cvalue = None, dirty = True\<rparr>
   \<and> fst (get d' (snd (del d t k)) k) = None
   \<and> fst (has d' (snd (del d t k)) k) = False"
proof -
  have c: "map_of (tx_cache (snd (del d t k))) k = Some \<lparr>cvalue = None, dirty = True\<rparr>"
    by (rule del_cache)
  have g: "fst (get d' (snd (del d t k)) k) = None"
    by (simp add: get_overlay c)
  have h: "fst (has d' (snd (del d t k)) k) = False"
    using g by (simp add: has_def case_prod_beta)
  have r: "fst (del d t k) = (fst (get d t k) \<noteq> None)"
    by (simp add: del_def has_def case_prod_beta)
  show ?thesis using c g h r get_overlay by simp
qed

theorem del_reports_presence_witness:
  "fst (del d0 (newTx ''s'' ''c1'' 3) ''a'') = True
   \<and> fst (del d0 (newTx ''s'' ''c1'' 3) ''b'') = False
   \<and> fst (get d0 (snd (del d0 (newTx ''s'' ''c1'' 3) ''a'')) ''a'') = None
   \<and> fst (has d0 (snd (del d0 (newTx ''s'' ''c1'' 3) ''a'')) ''a'') = False"
  using del_reports_presence[of d0 "newTx ''s'' ''c1'' 3" "''a''" d0]
    del_reports_presence[of d0 "newTx ''s'' ''c1'' 3" "''b''" d0]
  by (simp add: newTx_def getEntry_def d0_def)

section \<open>Flushing a transaction that only read\<close>

lemma set_update_subset: "set (AList.update k v al) \<subseteq> insert (k, v) (set al)"
  by (induction al) auto

lemma clean_get: "dirtyEntries t = [] \<Longrightarrow> dirtyEntries (snd (get d t k)) = []"
  using set_update_subset[of k "\<lparr>cvalue = getEntry d (tx_spaceID t) k, dirty = False\<rparr>" "tx_cache t"]
  by (auto simp: get_def dirtyEntries_def Let_def filter_empty_conv split: option.splits)

lemma clean_has: "dirtyEntries t = [] \<Longrightarrow> dirtyEntries (snd (has d t k)) = []"
  by (simp add: has_def case_prod_beta clean_get)

lemma clean_run_ops:
  "list_all is_read ops \<Longrightarrow> dirtyEntries t = [] \<Longrightarrow> dirtyEntries (run_ops d t ops) = []"
proof (induction ops arbitrary: t)
  case Nil
  then show ?case by (simp add: run_ops_def)
next
  case (Cons a ops)
  have "dirtyEntries (apply_op d t a) = []"
    using Cons.prems by (cases a) (simp_all add: clean_get clean_has)
  then show ?case using Cons by (simp add: run_ops_def)
qed

lemma flush_clean: "dirtyEntries t = [] \<Longrightarrow> flush d t = d"
  by (simp add: flush_def entriesToPut_def keysToDel_def putEntries_def delEntries_def)

text \<open>
  C10. A transaction that only calls \<open>get\<close> and \<open>has\<close> caches what it read as clean
  entries, so its dirty set is empty, and \<open>flush\<close> returns the store as it was: both
  \<open>delEntries\<close> and \<open>putEntries\<close> return at once on empty input.
\<close>

theorem flush_after_reads_only:
  "list_all is_read ops \<Longrightarrow>
     flush d (run_ops d (newTx sid cid ver) ops) = d
     \<and> list_all (\<lambda>ke. \<not> dirty (snd ke)) (tx_cache (run_ops d (newTx sid cid ver) ops))
     \<and> dirtyEntries (run_ops d (newTx sid cid ver) ops) = []
     \<and> delEntries d sid [] ver = d \<and> putEntries d sid [] ver = d"
proof -
  assume r: "list_all is_read ops"
  have e: "dirtyEntries (newTx sid cid ver) = []"
    by (simp add: dirtyEntries_def newTx_def)
  have c: "dirtyEntries (run_ops d (newTx sid cid ver) ops) = []"
    by (rule clean_run_ops[OF r e])
  have a: "list_all (\<lambda>ke. \<not> dirty (snd ke)) (tx_cache (run_ops d (newTx sid cid ver) ops))"
    using c by (simp add: dirtyEntries_def filter_empty_conv list_all_iff)
  show ?thesis using c a by (simp add: flush_clean putEntries_def delEntries_def)
qed

theorem flush_after_reads_only_witness:
  "list_all is_read [Get ''a'', Has ''b'', Get ''c'']
   \<and> flush d0 (run_ops d0 (newTx ''s'' ''c1'' 3) [Get ''a'', Has ''b'', Get ''c'']) = d0
   \<and> map fst (tx_cache (run_ops d0 (newTx ''s'' ''c1'' 3) [Get ''a'', Has ''b'', Get ''c'']))
       = [''a'', ''b'', ''c'']"
  using flush_after_reads_only[of "[Get ''a'', Has ''b'', Get ''c'']" d0 "''s''" "''c1''" 3]
  by (simp add: run_ops_def get_def has_def newTx_def getEntry_def d0_def Let_def case_prod_beta)

section \<open>One flush: last writer wins\<close>





lemma rowsOf_delEntries:
  "rowsOf (delEntries d sid keys ver) s k =
     (if s = sid \<and> k \<in> set keys
      then map (\<lambda>r. r\<lparr>deleted := True, version := ver\<rparr>) (rowsOf d s k)
      else rowsOf d s k)"
proof -
  have "filter (\<lambda>r. spaceid r = s \<and> key r = k)
          (map (\<lambda>r. if spaceid r = sid \<and> key r \<in> set keys
                     then r\<lparr>deleted := True, version := ver\<rparr> else r) rows)
        = (if s = sid \<and> k \<in> set keys
           then map (\<lambda>r. r\<lparr>deleted := True, version := ver\<rparr>)
                  (filter (\<lambda>r. spaceid r = s \<and> key r = k) rows)
           else filter (\<lambda>r. spaceid r = s \<and> key r = k) rows)" for rows :: "entry_row list"
    by (induction rows) auto
  then show ?thesis
    by (cases "keys = []") (simp_all add: rowsOf_def delEntries_def)
qed












lemma apply_op_fields:
  "tx_spaceID (apply_op d t x) = tx_spaceID t \<and> tx_version (apply_op d t x) = tx_version t
   \<and> tx_clientID (apply_op d t x) = tx_clientID t"
  by (cases x) (auto simp: put_def del_def has_def get_def case_prod_beta Let_def split: option.splits)


lemma run_ops_fields:
  "tx_spaceID (run_ops d t ops) = tx_spaceID t \<and> tx_version (run_ops d t ops) = tx_version t"
  by (induction ops arbitrary: t) (simp_all add: run_ops_def apply_op_fields)








section \<open>Space initialisation\<close>

lemma flush_space: "space (flush d t) = space d"
  by (simp add: flush_def putEntries_def delEntries_def)

lemma selectSpace_flush: "selectSpace (flush d t) s = selectSpace d s"
  by (simp add: selectSpace_def flush_space)

lemma insertSpace_select:
  "insertSpace d sid v = Inr d' \<Longrightarrow>
   selectSpace d' s = selectSpace d s @ (if s = sid then [\<lparr>space_id = sid, space_version = v\<rparr>] else [])
   \<and> selectSpace d sid = [] \<and> entry d' = entry d"
  by (auto simp: insertSpace_def selectSpace_def split: if_splits)

lemma copyEntries_space:
  "copyEntries d sid src = Inr d' \<Longrightarrow> space d' = space d"
  by (auto simp: copyEntries_def Let_def split: if_splits)

lemma seedSampleSpace_select:
  assumes "seedSampleSpace g p d = Inr d'"
  shows "selectSpace d' s = selectSpace d s @ (if s = sampleSpaceID then [\<lparr>space_id = sampleSpaceID, space_version = initialVersion\<rparr>] else [])"
proof -
  from assms obtain d1 where i: "insertSpace d sampleSpaceID initialVersion = Inr d1"
    and f: "d' = flush d1 (foldl (\<lambda>t issue. run_ops d1 t (p issue))
                    (newTx sampleSpaceID ''fake-client-id-for-server-init'' initialVersion) g)"
    by (auto simp: seedSampleSpace_def split: sum.splits)
  show ?thesis
    unfolding f selectSpace_flush using insertSpace_select[OF i, of s] by simp
qed

lemma initSpace_select:
  assumes "initSpace g p d sid = Inr d1" "selectSpace d sid = []"
  shows "selectSpace d1 sid = [\<lparr>space_id = sid, space_version = initialVersion\<rparr>] \<and> sid \<noteq> sampleSpaceID"
proof -
  from assms obtain d2 d3 where
    s: "(if length (selectSpace d sampleSpaceID) = 0 then seedSampleSpace g p d else Inr d) = Inr d2"
    and i: "insertSpace d2 sid initialVersion = Inr d3"
    and c: "copyEntries d3 sid sampleSpaceID = Inr d1"
    by (auto simp: initSpace_def split: sum.splits if_splits)
  have d2: "selectSpace d2 sid = (if sid = sampleSpaceID then [\<lparr>space_id = sampleSpaceID, space_version = initialVersion\<rparr>] else [])"
    using s assms(2) by (auto split: if_splits dest: seedSampleSpace_select[where s = sid])
  from insertSpace_select[OF i, of sid] d2 have ne: "sid \<noteq> sampleSpaceID"
    by (auto split: if_splits)
  from insertSpace_select[OF i, of sid] d2 ne
  have "selectSpace d3 sid = [\<lparr>space_id = sid, space_version = initialVersion\<rparr>]" by simp
  with c ne show ?thesis by (simp add: selectSpace_def copyEntries_space[OF c])
qed

lemma initSpace_exists:
  assumes "initSpace g p d sid = Inr d1"
  shows "selectSpace d1 sid \<noteq> []"
proof (cases "selectSpace d sid = []")
  case True
  from initSpace_select[OF assms True] show ?thesis by simp
next
  case False
  with assms show ?thesis by (simp add: initSpace_def)
qed

lemma initSpace_again:
  assumes "initSpace g p d sid = Inr d1"
  shows "initSpace g p d1 sid = Inr d1"
  using initSpace_exists[OF assms] by (simp add: initSpace_def)


lemma filter_space_upsert:
  "s \<noteq> sid \<Longrightarrow>
   filter (\<lambda>r. spaceid r = s) (upsertEntry sid ver rows kv) = filter (\<lambda>r. spaceid r = s) rows"
proof -
  assume ne: "s \<noteq> sid"
  have "filter (\<lambda>r. spaceid r = s)
          (map (\<lambda>r. if spaceid r = sid \<and> key r = fst kv
                     then r\<lparr>val := snd kv, deleted := False, version := ver\<rparr> else r) rows)
        = filter (\<lambda>r. spaceid r = s) rows"
    using ne by (induction rows) auto
  then show ?thesis using ne by (simp add: upsertEntry_def)
qed

lemma filter_space_putEntries:
  "s \<noteq> sid \<Longrightarrow>
   filter (\<lambda>r. spaceid r = s) (entry (putEntries d sid entries ver)) = filter (\<lambda>r. spaceid r = s) (entry d)"
proof -
  assume ne: "s \<noteq> sid"
  have "filter (\<lambda>r. spaceid r = s) (foldl (upsertEntry sid ver) rows entries)
          = filter (\<lambda>r. spaceid r = s) rows" for rows
    by (induction entries arbitrary: rows) (simp_all add: filter_space_upsert[OF ne])
  then show ?thesis by (simp add: putEntries_def)
qed

lemma filter_space_delEntries:
  "s \<noteq> sid \<Longrightarrow>
   filter (\<lambda>r. spaceid r = s) (entry (delEntries d sid keys ver)) = filter (\<lambda>r. spaceid r = s) (entry d)"
proof -
  assume ne: "s \<noteq> sid"
  have "filter (\<lambda>r. spaceid r = s)
          (map (\<lambda>r. if spaceid r = sid \<and> key r \<in> set keys
                     then r\<lparr>deleted := True, version := ver\<rparr> else r) rows)
        = filter (\<lambda>r. spaceid r = s) rows" for rows :: "entry_row list"
    using ne by (induction rows) auto
  then show ?thesis by (simp add: delEntries_def)
qed

lemma filter_space_flush:
  "s \<noteq> tx_spaceID t \<Longrightarrow>
   filter (\<lambda>r. spaceid r = s) (entry (flush d t)) = filter (\<lambda>r. spaceid r = s) (entry d)"
  by (simp add: flush_def filter_space_putEntries filter_space_delEntries)

lemma seed_tx_space:
  "tx_spaceID (foldl (\<lambda>t issue. run_ops d t (p issue)) t0 g) = tx_spaceID t0"
  by (induction g arbitrary: t0) (simp_all add: run_ops_fields)

lemma filter_space_seed:
  assumes "seedSampleSpace g p d = Inr d'" "s \<noteq> sampleSpaceID"
  shows "filter (\<lambda>r. spaceid r = s) (entry d') = filter (\<lambda>r. spaceid r = s) (entry d)"
proof -
  from assms obtain d1 where i: "insertSpace d sampleSpaceID initialVersion = Inr d1"
    and f: "d' = flush d1 (foldl (\<lambda>t issue. run_ops d1 t (p issue))
                    (newTx sampleSpaceID ''fake-client-id-for-server-init'' initialVersion) g)"
    by (auto simp: seedSampleSpace_def split: sum.splits)
  have "s \<noteq> tx_spaceID (foldl (\<lambda>t issue. run_ops d1 t (p issue))
                    (newTx sampleSpaceID ''fake-client-id-for-server-init'' initialVersion) g)"
    using assms(2) by (simp add: seed_tx_space newTx_def)
  from filter_space_flush[OF this] insertSpace_select[OF i] show ?thesis
    unfolding f by simp
qed

lemma distinct_key_filter:
  "distinct (map f xs) \<Longrightarrow> x \<in> set xs \<Longrightarrow> filter (\<lambda>y. f y = f x) xs = [x]"
proof (induction xs)
  case Nil
  then show ?case by simp
next
  case (Cons a xs)
  show ?case
  proof (cases "x = a")
    case True
    have "f a \<notin> f ` set xs" using Cons.prems(1) by simp
    then have "\<forall>y \<in> set xs. f y \<noteq> f a" by (metis imageI)
    then have "filter (\<lambda>y. f y = f a) xs = []"
      by (simp add: filter_empty_conv)
    with True show ?thesis by simp
  next
    case False
    with Cons.prems have "x \<in> set xs" "f a \<noteq> f x" by auto
    with Cons show ?thesis by simp
  qed
qed

lemma copyEntries_rows:
  assumes c: "copyEntries d3 sid src = Inr d1" and ne: "sid \<noteq> src"
    and r: "r \<in> set (entry d1)" "spaceid r = src"
  shows "rowsOf d1 sid (key r) = [r\<lparr>spaceid := sid\<rparr>]"
proof -
  define new where "new = map (\<lambda>r. r\<lparr>spaceid := sid\<rparr>) (filter (\<lambda>r. spaceid r = src) (entry d3))"
  from c have e: "entry d1 = entry d3 @ new"
    and noc: "\<not> (\<exists>n \<in> set new. \<exists>r \<in> set (entry d3). spaceid r = sid \<and> key r = key n)"
    and dist: "distinct (map key new)"
    by (auto simp: copyEntries_def Let_def new_def split: if_splits)
  have newsid: "\<forall>n \<in> set new. spaceid n = sid" by (auto simp: new_def)
  from r e ne newsid have r3: "r \<in> set (entry d3)" by auto
  with r have rn: "r\<lparr>spaceid := sid\<rparr> \<in> set new" by (auto simp: new_def)
  have old: "filter (\<lambda>x. spaceid x = sid \<and> key x = key r) (entry d3) = []"
    using noc rn by (auto simp: filter_empty_conv)
  have "filter (\<lambda>x. spaceid x = sid \<and> key x = key r) new
        = filter (\<lambda>x. key x = key (r\<lparr>spaceid := sid\<rparr>)) new"
    using newsid by (auto intro: filter_cong)
  also have "\<dots> = [r\<lparr>spaceid := sid\<rparr>]"
    by (rule distinct_key_filter[OF dist rn])
  finally show ?thesis using old by (simp add: rowsOf_def e)
qed

lemma copyEntries_no_strays:
  assumes c: "copyEntries d3 sid src = Inr d1" and ne: "sid \<noteq> src"
    and n: "filter (\<lambda>r. spaceid r = sid) (entry d3) = []"
  shows "filter (\<lambda>r. spaceid r = sid) (entry d1)
         = map (\<lambda>r. r\<lparr>spaceid := sid\<rparr>) (filter (\<lambda>r. spaceid r = src) (entry d1))"
proof -
  define new where "new = map (\<lambda>r. r\<lparr>spaceid := sid\<rparr>) (filter (\<lambda>r. spaceid r = src) (entry d3))"
  from c have e: "entry d1 = entry d3 @ new"
    by (auto simp: copyEntries_def Let_def new_def split: if_splits)
  have a: "filter (\<lambda>r. spaceid r = sid) new = new" by (auto simp: new_def)
  have b: "filter (\<lambda>r. spaceid r = src) new = []" using ne by (auto simp: new_def filter_empty_conv)
  show ?thesis using n a b by (simp add: e) (simp add: new_def)
qed

lemma initSpace_entries:
  assumes i: "initSpace g p d sid = Inr d1" and f: "selectSpace d sid = []"
  shows "(\<forall>r \<in> set (entry d1). spaceid r = sampleSpaceID \<longrightarrow> rowsOf d1 sid (key r) = [r\<lparr>spaceid := sid\<rparr>])
     \<and> (filter (\<lambda>r. spaceid r = sid) (entry d) = [] \<longrightarrow>
          filter (\<lambda>r. spaceid r = sid) (entry d1)
          = map (\<lambda>r. r\<lparr>spaceid := sid\<rparr>) (filter (\<lambda>r. spaceid r = sampleSpaceID) (entry d1)))"
proof -
  from initSpace_select[OF i f] have ne: "sid \<noteq> sampleSpaceID" by simp
  from i f obtain d2 d3 where
    s: "(if length (selectSpace d sampleSpaceID) = 0 then seedSampleSpace g p d else Inr d) = Inr d2"
    and ins: "insertSpace d2 sid initialVersion = Inr d3"
    and c: "copyEntries d3 sid sampleSpaceID = Inr d1"
    by (auto simp: initSpace_def split: sum.splits if_splits)
  have e2: "filter (\<lambda>r. spaceid r = sid) (entry d2) = filter (\<lambda>r. spaceid r = sid) (entry d)"
    using s filter_space_seed[OF _ ne, of g p d d2] by (auto split: if_splits)
  have e3: "entry d3 = entry d2" using insertSpace_select[OF ins] by simp
  show ?thesis
    using copyEntries_rows[OF c ne] copyEntries_no_strays[OF c ne] e2 e3 by simp
qed


lemmas eval_defs = initSpace_def seedSampleSpace_def insertSpace_def selectSpace_def copyEntries_def
  flush_def putEntries_def delEntries_def upsertEntry_def dirtyEntries_def entriesToPut_def keysToDel_def
  run_ops_def put_def get_def has_def del_def newTx_def getEntry_def Let_def case_prod_beta
  sampleSpaceID_def initialVersion_def

lemma initSpace_fresh: "initSpace sample_issues sample_putIssue fresh_db ''s1'' = Inr seeded_db"
  by (simp add: eval_defs fresh_db_def sample_issues_def sample_putIssue_def seeded_db_def)

text \<open>
  Whenever \<open>initSpace\<close> completes, running it again returns the store unchanged; for a
  space that had no row it leaves one row of the space and, for each entry of the sample
  space, one copy under the same key (and nothing else when the space had no entries).
\<close>

lemma initSpace_idempotent:
  assumes "initSpace g p d sid = Inr d1"
  shows "initSpace g p d1 sid = Inr d1
     \<and> (selectSpace d sid = [] \<longrightarrow>
          length (selectSpace d1 sid) = 1
          \<and> (\<forall>r \<in> set (entry d1). spaceid r = sampleSpaceID
                \<longrightarrow> rowsOf d1 sid (key r) = [r\<lparr>spaceid := sid\<rparr>])
          \<and> (filter (\<lambda>r. spaceid r = sid) (entry d) = [] \<longrightarrow>
                filter (\<lambda>r. spaceid r = sid) (entry d1)
                = map (\<lambda>r. r\<lparr>spaceid := sid\<rparr>)
                    (filter (\<lambda>r. spaceid r = sampleSpaceID) (entry d1))))"
  using initSpace_again[OF assms] initSpace_select[OF assms] initSpace_entries[OF assms]
  by simp

lemma initSpace_idempotent_fresh:
  "initSpace sample_issues sample_putIssue fresh_db ''s1'' = Inr seeded_db
   \<and> initSpace sample_issues sample_putIssue seeded_db ''s1'' = Inr seeded_db
   \<and> length (selectSpace seeded_db ''s1'') = 1"
  using initSpace_idempotent[OF initSpace_fresh] initSpace_fresh
  by (simp add: selectSpace_def fresh_db_def)

text \<open>
  C5. Initialisation is not idempotent for every space ID: for the ID of the sample space
  itself, on a store in which that space has no row yet, \<open>initSpace\<close> inserts the row
  of the sample space and then inserts a row with the same ID again, which the primary key
  of \<open>space\<close> rejects. The run ends with the error whatever the sample issues are, so no
  run leaves a space row or a copy of the seed entries.
\<close>

theorem initSpace_sampleSpaceID_fails:
  "selectSpace d sampleSpaceID = [] \<Longrightarrow> initSpace g p d sampleSpaceID = Inl UniqueViolation"
proof -
  assume f: "selectSpace d sampleSpaceID = []"
  show ?thesis
  proof (cases "initSpace g p d sampleSpaceID")
    case (Inl e)
    then show ?thesis
      by (cases e)
         (auto simp: initSpace_def seedSampleSpace_def insertSpace_def copyEntries_def Let_def
               split: sum.splits if_splits)
  next
    case (Inr d1)
    from initSpace_select[OF Inr f] show ?thesis by simp
  qed
qed

theorem initSpace_sampleSpaceID_fails_witness:
  "selectSpace fresh_db ''sampleSpaceID'' = []
   \<and> initSpace sample_issues sample_putIssue fresh_db ''sampleSpaceID'' = Inl UniqueViolation"
  using initSpace_sampleSpaceID_fails[of fresh_db sample_issues sample_putIssue]
  by (simp add: selectSpace_def fresh_db_def sampleSpaceID_def)

section \<open>The pull handler\<close>

lemma pull_unfold:
  "pull m g p d sid req = Inr (resp, d') \<Longrightarrow>
   initSpace g p d sid = Inr d'
   \<and> patch resp = toPatch (fst (pullEntries m d' sid req))
   \<and> cookie resp = snd (snd (pullEntries m d' sid req))
   \<and> lastMutationID resp = (case fst (snd (pullEntries m d' sid req)) of None \<Rightarrow> 0 | Some n \<Rightarrow> n)"
  by (auto simp: pull_def Let_def case_prod_beta split: sum.splits)

text \<open>
  C1, as the code has it. For every pull that completes and whose cursor carries an
  \<open>endKey\<close>: when the page query returns fewer than 3000 rows the response cookie has
  no \<open>endKey\<close>, otherwise its \<open>endKey\<close> is the last key of the page; in both cases
  the patch is the version delta, then the page, then one control entry
  \<open>control/partialSync\<close> that carries the response \<open>endKey\<close> (none when the sync is
  complete).
\<close>

theorem pull_page_cursor:
  assumes "pull m g p d sid req = Inr (resp, d')"
    and "req_cookie req = Some c" and "cookie_endKey c = Some ek"
  shows "(length (getNonIssueMetaEntries m d' sid ek 3000) < 3000
            \<longrightarrow> resp_endKey (cookie resp) = None)
       \<and> (\<not> length (getNonIssueMetaEntries m d' sid ek 3000) < 3000
            \<longrightarrow> resp_endKey (cookie resp) = Some (fst (last (getNonIssueMetaEntries m d' sid ek 3000))))
       \<and> patch resp =
           toPatch (map (\<lambda>(k, v, dl). (k, v, Some dl)) (getChangedEntries d' sid (cookie_version c)))
           @ toPatch (getNonIssueMetaEntries m d' sid ek 3000)
           @ [PatchPut ''control/partialSync''
                (JObj (case resp_endKey (cookie resp) of None \<Rightarrow> [] | Some k \<Rightarrow> [(''endKey'', JStr k)]))]"
proof -
  note u = pull_unfold[OF assms(1)]
  show ?thesis
    using u assms(2,3)
    by (simp add: pullEntries_def Let_def limit_def toPatch_def partialSync_def)
qed

lemma pull_s1_page:
  "pull sample_isIssueMeta sample_issues sample_putIssue seeded_db ''s1''
     \<lparr>req_clientID = ''c1'', req_cookie = Some \<lparr>cookie_version = 1, cookie_endKey = Some []\<rparr>\<rparr>
   = Inr (\<lparr>lastMutationID = 0,
            cookie = \<lparr>resp_version = Some 1, resp_endKey = None\<rparr>,
            patch = [PatchPut ''issueBody/1'' (JStr ''long text''),
                     PatchPut ''control/partialSync'' (JObj [])]\<rparr>, seeded_db)"
  by (simp add: pull_def pullEntries_def initSpace_def selectSpace_def seeded_db_def
        getChangedEntries_def getNonIssueMetaEntries_def getLastMutationID_def getVersion_def
        getCookie_def toPatch_def partialSync_def limit_def sample_isIssueMeta_def Let_def)

lemma page_s1_length:
  "length (getNonIssueMetaEntries sample_isIssueMeta seeded_db ''s1'' [] 3000) = 1"
  by (simp add: getNonIssueMetaEntries_def seeded_db_def sample_isIssueMeta_def)

theorem pull_page_cursor_witness:
  "pull sample_isIssueMeta sample_issues sample_putIssue seeded_db ''s1''
     \<lparr>req_clientID = ''c1'', req_cookie = Some \<lparr>cookie_version = 1, cookie_endKey = Some []\<rparr>\<rparr>
   = Inr (\<lparr>lastMutationID = 0,
            cookie = \<lparr>resp_version = Some 1, resp_endKey = None\<rparr>,
            patch = [PatchPut ''issueBody/1'' (JStr ''long text''),
                     PatchPut ''control/partialSync'' (JObj [])]\<rparr>, seeded_db)
   \<and> length (getNonIssueMetaEntries sample_isIssueMeta seeded_db ''s1'' [] 3000) < 3000
   \<and> toPatch (getNonIssueMetaEntries sample_isIssueMeta seeded_db ''s1'' [] 3000)
       = [PatchPut ''issueBody/1'' (JStr ''long text'')]"
  using pull_page_cursor[OF pull_s1_page, of "\<lparr>cookie_version = 1, cookie_endKey = Some []\<rparr>" "[]"]
    pull_s1_page page_s1_length
  by (simp add: getChangedEntries_def seeded_db_def toPatch_def)

text \<open>
  The claim as stated fails: a pull whose page has one row, fewer than 3000, gets the
  control entry all the same.
\<close>

theorem pull_control_entry_counterexample:
  "length (getNonIssueMetaEntries sample_isIssueMeta seeded_db ''s1'' [] 3000) < 3000
   \<and> pull sample_isIssueMeta sample_issues sample_putIssue seeded_db ''s1''
       \<lparr>req_clientID = ''c1'', req_cookie = Some \<lparr>cookie_version = 1, cookie_endKey = Some []\<rparr>\<rparr>
     = Inr (\<lparr>lastMutationID = 0,
              cookie = \<lparr>resp_version = Some 1, resp_endKey = None\<rparr>,
              patch = [PatchPut ''issueBody/1'' (JStr ''long text''),
                       PatchPut ''control/partialSync'' (JObj [])]\<rparr>, seeded_db)"
  using pull_s1_page page_s1_length by simp

text \<open>
  C6. A pull without a cookie that completes returns exactly the metadata entries of the
  space: every patch entry has a key of the metadata subset and is a stored entry of the
  space (so none is a control entry), and the response cookie holds the space's version and
  the empty \<open>endKey\<close>. For a space that had no row, that version is the initial one.
\<close>

theorem pull_first_metadata_only:
  assumes "pull m g p d sid req = Inr (resp, d')" and "req_cookie req = None"
  shows "(\<forall>x \<in> set (patch resp). m (patch_key x)
            \<and> (\<exists>r \<in> set (entry d'). spaceid r = sid \<and> key r = patch_key x))
       \<and> patch resp = toPatch (getIssueMeta m d' sid)
       \<and> (\<exists>v. getCookie d' sid = Some v
              \<and> cookie resp = \<lparr>resp_version = Some v, resp_endKey = Some []\<rparr>)
       \<and> (selectSpace d sid = [] \<longrightarrow> resp_version (cookie resp) = Some 1)"
proof -
  note u = pull_unfold[OF assms(1)]
  have i: "initSpace g p d sid = Inr d'" using u by simp
  have pe: "pullEntries m d' sid req =
      (getIssueMeta m d' sid, getLastMutationID d' (req_clientID req),
       \<lparr>resp_version = getVersion d' sid, resp_endKey = Some []\<rparr>)"
    using assms(2) by (simp add: pullEntries_def)
  have p: "patch resp = toPatch (getIssueMeta m d' sid)" using u pe by simp
  have k: "\<forall>x \<in> set (patch resp). m (patch_key x)
            \<and> (\<exists>r \<in> set (entry d'). spaceid r = sid \<and> key r = patch_key x)"
    unfolding p by (auto simp: toPatch_def getIssueMeta_def)
  from initSpace_exists[OF i] obtain v where v: "getCookie d' sid = Some v"
    by (cases "selectSpace d' sid") (auto simp: getCookie_def)
  have c: "cookie resp = \<lparr>resp_version = Some v, resp_endKey = Some []\<rparr>"
    using u pe v by (simp add: getVersion_def)
  have f: "selectSpace d sid = [] \<longrightarrow> resp_version (cookie resp) = Some 1"
    using initSpace_select[OF i] c v by (auto simp: getCookie_def initialVersion_def)
  show ?thesis using k p v c f by simp
qed

theorem pull_first_metadata_only_witness:
  "pull sample_isIssueMeta sample_issues sample_putIssue fresh_db ''s1''
     \<lparr>req_clientID = ''c1'', req_cookie = None\<rparr>
   = Inr (\<lparr>lastMutationID = 0,
            cookie = \<lparr>resp_version = Some 1, resp_endKey = Some []\<rparr>,
            patch = [PatchPut ''issueMeta/1'' (JStr ''first'')]\<rparr>, seeded_db)
   \<and> sample_isIssueMeta ''issueMeta/1'' \<and> \<not> sample_isIssueMeta ''issueBody/1''"
proof -
  have e: "pull sample_isIssueMeta sample_issues sample_putIssue fresh_db ''s1''
     \<lparr>req_clientID = ''c1'', req_cookie = None\<rparr>
   = Inr (\<lparr>lastMutationID = 0,
            cookie = \<lparr>resp_version = Some 1, resp_endKey = Some []\<rparr>,
            patch = [PatchPut ''issueMeta/1'' (JStr ''first'')]\<rparr>, seeded_db)"
    by (simp add: pull_def initSpace_fresh pullEntries_def getIssueMeta_def getLastMutationID_def
          getVersion_def getCookie_def selectSpace_def toPatch_def sample_isIssueMeta_def
          seeded_db_def)
  from pull_first_metadata_only[OF e] e show ?thesis
    by (simp add: sample_isIssueMeta_def)
qed

lemma delEntries_no_row:
  "rowsOf d sid k = [] \<Longrightarrow> rowsOf (delEntries d sid keys v) sid k = []"
  by (simp add: rowsOf_delEntries)

text \<open>
  C7, amended. When a key that has a stored row is deleted at version \<open>v\<close>, its rows
  stay in the table, marked deleted with that version, and no row is removed. Every pull
  with a cursor version below \<open>v\<close> and no \<open>endKey\<close>, against a later store in which the
  space exists and the key has not been written since (its rows are as the delete left
  them), completes with a patch that contains \<open>{op: "del", key}\<close> for the key. Both
  conditions are needed: \<open>delEntries\<close> is an update and stores nothing for a key without
  a row, and a later put of the key clears the deleted flag of its row.
\<close>

theorem deleted_key_pulled:
  assumes "rowsOf d sid k \<noteq> []" and "k \<in> set keys"
    and "selectSpace d' sid \<noteq> []"
    and "rowsOf d' sid k = rowsOf (delEntries d sid keys v) sid k"
    and "c < v"
  shows "(\<exists>resp. pull m g p d' sid
                   \<lparr>req_clientID = cid,
                      req_cookie = Some \<lparr>cookie_version = c, cookie_endKey = None\<rparr>\<rparr>
                 = Inr (resp, d')
               \<and> PatchDel k \<in> set (patch resp))
       \<and> length (entry (delEntries d sid keys v)) = length (entry d)
       \<and> rowsOf (delEntries d sid keys v) sid k
           = map (\<lambda>r. r\<lparr>deleted := True, version := v\<rparr>) (rowsOf d sid k)"
proof -
  let ?req = "\<lparr>req_clientID = cid, req_cookie = Some \<lparr>cookie_version = c, cookie_endKey = None\<rparr>\<rparr>"
  have i: "initSpace g p d' sid = Inr d'" using assms(3) by (simp add: initSpace_def)
  have rows: "rowsOf (delEntries d sid keys v) sid k
      = map (\<lambda>r. r\<lparr>deleted := True, version := v\<rparr>) (rowsOf d sid k)"
    using assms(2) by (simp add: rowsOf_delEntries)
  from assms(1) obtain r rs where r: "rowsOf d sid k = r # rs" by (cases "rowsOf d sid k") auto
  define r' where "r' = r\<lparr>deleted := True, version := v\<rparr>"
  have "r' \<in> set (rowsOf d' sid k)" by (simp add: assms(4) rows r r'_def)
  then have mem: "r' \<in> set (entry d')" and sk: "spaceid r' = sid" "key r' = k"
    by (simp_all add: rowsOf_def)
  have q: "c < version r'" "deleted r'" using assms(5) by (simp_all add: r'_def)
  have "(key r', val r', deleted r')
          \<in> (\<lambda>r. (key r, val r, deleted r)) ` {x \<in> set (entry d'). spaceid x = sid \<and> c < version x}"
    using mem sk q by blast
  then have ch: "(k, val r', True) \<in> set (getChangedEntries d' sid c)"
    using sk q by (simp add: getChangedEntries_def)
  have pe: "fst (pullEntries m d' sid ?req)
            = map (\<lambda>(k, v, dl). (k, v, Some dl)) (getChangedEntries d' sid c)"
    by (simp add: pullEntries_def)
  have "PatchDel k \<in> set (toPatch (fst (pullEntries m d' sid ?req)))"
    unfolding pe toPatch_def using ch by force
  then have "\<exists>resp. pull m g p d' sid ?req = Inr (resp, d') \<and> PatchDel k \<in> set (patch resp)"
    by (simp add: pull_def i case_prod_beta)
  moreover have "length (entry (delEntries d sid keys v)) = length (entry d)"
    by (simp add: delEntries_def)
  ultimately show ?thesis using rows by simp
qed

text \<open>
  The sample space after \<open>issueBody/1\<close> was deleted at version 2 and \<open>issueMeta/1\<close>
  rewritten at version 3, pulled with cursor version 1.
\<close>

theorem deleted_key_pulled_witness:
  "rowsOf seeded_db ''s1'' ''issueBody/1'' \<noteq> []
   \<and> selectSpace later_db ''s1'' \<noteq> []
   \<and> rowsOf later_db ''s1'' ''issueBody/1''
       = rowsOf (delEntries seeded_db ''s1'' [''issueBody/1''] 2) ''s1'' ''issueBody/1''
   \<and> (1::int) < 2
   \<and> (case pull sample_isIssueMeta sample_issues sample_putIssue later_db ''s1''
              \<lparr>req_clientID = ''c1'',
                 req_cookie = Some \<lparr>cookie_version = 1, cookie_endKey = None\<rparr>\<rparr> of
         Inl e \<Rightarrow> False
       | Inr (resp, d') \<Rightarrow>
           d' = later_db
           \<and> lastMutationID resp = 0
           \<and> cookie resp = \<lparr>resp_version = Some 3, resp_endKey = None\<rparr>
           \<and> set (patch resp)
               = {PatchPut ''issueMeta/1'' (JStr ''edited''), PatchDel ''issueBody/1''})
   \<and> rowsOf (delEntries seeded_db ''s1'' [''issueBody/1''] 2) ''s1'' ''issueBody/1''
      = [\<lparr>spaceid = ''s1'', key = ''issueBody/1'', val = JStr ''long text'',
           deleted = True, version = 2\<rparr>]"
  using deleted_key_pulled[of seeded_db "''s1''" "''issueBody/1''" "[''issueBody/1'']" later_db 2 1
      sample_isIssueMeta sample_issues sample_putIssue "''c1''"]
  by (simp add: pull_def pullEntries_def initSpace_def selectSpace_def seeded_db_def later_db_def
        getChangedEntries_def getLastMutationID_def getVersion_def getCookie_def toPatch_def
        delEntries_def putEntries_def upsertEntry_def setCookie_def rowsOf_def Let_def)

text \<open>
  The claim as stated fails: key \<open>issueBody/1\<close> of the sample space is deleted at version
  2 (its row is the tombstone of that version) and put again at version 3. The pull that
  follows, with cursor version 1 and no \<open>endKey\<close>, completes with a put of the key in its
  patch and no \<open>{op: "del"}\<close> for it.
\<close>

theorem deleted_key_rewritten_counterexample:
  "rowsOf (delEntries seeded_db ''s1'' [''issueBody/1''] 2) ''s1'' ''issueBody/1''
     = [\<lparr>spaceid = ''s1'', key = ''issueBody/1'', val = JStr ''long text'',
          deleted = True, version = 2\<rparr>]
   \<and> (1::int) < 2
   \<and> (case pull sample_isIssueMeta sample_issues sample_putIssue restored_db ''s1''
              \<lparr>req_clientID = ''c1'',
                 req_cookie = Some \<lparr>cookie_version = 1, cookie_endKey = None\<rparr>\<rparr> of
         Inl e \<Rightarrow> False
       | Inr (resp, d') \<Rightarrow>
           d' = restored_db
           \<and> cookie resp = \<lparr>resp_version = Some 3, resp_endKey = None\<rparr>
           \<and> PatchDel ''issueBody/1'' \<notin> set (patch resp)
           \<and> set (patch resp) = {PatchPut ''issueBody/1'' (JStr ''restored'')})"
  by (simp add: pull_def pullEntries_def initSpace_def selectSpace_def seeded_db_def
        restored_db_def getChangedEntries_def getLastMutationID_def getVersion_def getCookie_def
        toPatch_def delEntries_def putEntries_def upsertEntry_def setCookie_def rowsOf_def
        Let_def)

section \<open>The binary search of lodash on a sorted list\<close>

lemma baseSortedIndexBy_spec:
  "sorted (map f xs) \<Longrightarrow> low \<le> high \<Longrightarrow> high \<le> length xs \<Longrightarrow>
   (\<forall>i<low. f (xs ! i) < v) \<Longrightarrow> (\<forall>i. high \<le> i \<and> i < length xs \<longrightarrow> \<not> f (xs ! i) < v) \<Longrightarrow>
   low \<le> baseSortedIndexBy f xs v low high \<and> baseSortedIndexBy f xs v low high \<le> high
   \<and> (\<forall>i<baseSortedIndexBy f xs v low high. f (xs ! i) < v)
   \<and> (\<forall>i. baseSortedIndexBy f xs v low high \<le> i \<and> i < length xs \<longrightarrow> \<not> f (xs ! i) < v)"
proof (induction f xs v low high rule: baseSortedIndexBy.induct)
  case (1 f xs v low high)
  show ?case
  proof (cases "low < high")
    case False
    have e: "baseSortedIndexBy f xs v low high = high"
      using False by (simp add: baseSortedIndexBy.simps[of f xs v low high])
    show ?thesis unfolding e using "1.prems" False by auto
  next
    case True
    define mid where "mid = (low + high) div 2"
    have m: "low \<le> mid" "mid < high" using True by (simp_all add: mid_def)
    then have ml: "mid < length xs" using "1.prems"(3) by simp
    have mono: "\<And>i j. i \<le> j \<Longrightarrow> j < length xs \<Longrightarrow> f (xs ! i) \<le> f (xs ! j)"
      using "1.prems"(1) by (simp add: sorted_iff_nth_mono)
    show ?thesis
    proof (cases "f (xs ! mid) < v")
      case lt: True
      have a: "\<forall>i<mid + 1. f (xs ! i) < v"
      proof (intro allI impI)
        fix i assume "i < mid + 1"
        then have "f (xs ! i) \<le> f (xs ! mid)" using mono[of i mid] ml by simp
        with lt show "f (xs ! i) < v" by simp
      qed
      have IH: "mid + 1 \<le> baseSortedIndexBy f xs v (mid + 1) high
          \<and> baseSortedIndexBy f xs v (mid + 1) high \<le> high
          \<and> (\<forall>i<baseSortedIndexBy f xs v (mid + 1) high. f (xs ! i) < v)
          \<and> (\<forall>i. baseSortedIndexBy f xs v (mid + 1) high \<le> i \<and> i < length xs \<longrightarrow> \<not> f (xs ! i) < v)"
        using "1.IH"(1)[OF True mid_def lt "1.prems"(1) _ "1.prems"(3) a "1.prems"(5)] m by simp
      have e: "baseSortedIndexBy f xs v low high = baseSortedIndexBy f xs v (mid + 1) high"
        using True lt by (simp add: baseSortedIndexBy.simps[of f xs v low high] mid_def Let_def)
      show ?thesis unfolding e using IH m by simp
    next
      case ge: False
      have b: "\<forall>i. mid \<le> i \<and> i < length xs \<longrightarrow> \<not> f (xs ! i) < v"
      proof (intro allI impI)
        fix i assume "mid \<le> i \<and> i < length xs"
        then have "f (xs ! mid) \<le> f (xs ! i)" using mono[of mid i] by simp
        with ge show "\<not> f (xs ! i) < v" by simp
      qed
      have IH: "low \<le> baseSortedIndexBy f xs v low mid
          \<and> baseSortedIndexBy f xs v low mid \<le> mid
          \<and> (\<forall>i<baseSortedIndexBy f xs v low mid. f (xs ! i) < v)
          \<and> (\<forall>i. baseSortedIndexBy f xs v low mid \<le> i \<and> i < length xs \<longrightarrow> \<not> f (xs ! i) < v)"
        using "1.IH"(2)[OF True mid_def ge "1.prems"(1) m(1) _ "1.prems"(4) b] ml by simp
      have e: "baseSortedIndexBy f xs v low high = baseSortedIndexBy f xs v low mid"
        using True ge by (simp add: baseSortedIndexBy.simps[of f xs v low high] mid_def Let_def)
      show ?thesis unfolding e using IH m by simp
    qed
  qed
qed

lemma sortedIndexBy_spec:
  assumes "sorted (map f xs)"
  shows "sortedIndexBy xs x f \<le> length xs
     \<and> (\<forall>i<sortedIndexBy xs x f. f (xs ! i) < f x)
     \<and> (\<forall>i. sortedIndexBy xs x f \<le> i \<and> i < length xs \<longrightarrow> f x \<le> f (xs ! i))"
proof (cases "xs = []")
  case True
  then show ?thesis by (simp add: sortedIndexBy_def)
next
  case False
  have "0 \<le> baseSortedIndexBy f xs (f x) 0 (length xs) \<and> baseSortedIndexBy f xs (f x) 0 (length xs) \<le> length xs
   \<and> (\<forall>i<baseSortedIndexBy f xs (f x) 0 (length xs). f (xs ! i) < f x)
   \<and> (\<forall>i. baseSortedIndexBy f xs (f x) 0 (length xs) \<le> i \<and> i < length xs \<longrightarrow> \<not> f (xs ! i) < f x)"
    by (rule baseSortedIndexBy_spec[OF assms]) auto
  with False show ?thesis by (simp add: sortedIndexBy_def not_less)
qed


section \<open>Inserting into and removing from a list with strictly ascending keys\<close>

lemma keys_sorted:
  "sorted_wrt (\<lambda>a b. f a < f b) l \<Longrightarrow> sorted (map f l) \<and> distinct (map f l) \<and> distinct l"
proof -
  assume "sorted_wrt (\<lambda>a b. f a < f b) l"
  then have "sorted_wrt (<) (map f l)" by (simp add: sorted_wrt_map)
  then have "sorted (map f l) \<and> distinct (map f l)" by (simp add: strict_sorted_iff)
  then show ?thesis by (auto simp: distinct_map)
qed

lemma sortedIndexBy_split:
  assumes "sorted_wrt (\<lambda>a b. f a < f b) l"
  shows "(\<forall>y \<in> set (take (sortedIndexBy l x f) l). f y < f x)
       \<and> (\<forall>y \<in> set (drop (sortedIndexBy l x f) l). f x \<le> f y)"
proof -
  let ?r = "sortedIndexBy l x f"
  from keys_sorted[OF assms] have s: "sorted (map f l)" by simp
  note sp = sortedIndexBy_spec[OF s, of x]
  have a: "\<forall>y \<in> set (take ?r l). f y < f x"
  proof
    fix y assume "y \<in> set (take ?r l)"
    then obtain i where "i < length (take ?r l)" "take ?r l ! i = y"
      by (auto simp: in_set_conv_nth)
    then show "f y < f x" using sp by auto
  qed
  have b: "\<forall>y \<in> set (drop ?r l). f x \<le> f y"
  proof
    fix y assume "y \<in> set (drop ?r l)"
    then obtain i where i: "i < length (drop ?r l)" "drop ?r l ! i = y"
      by (auto simp: in_set_conv_nth)
    then have "l ! (?r + i) = y" "?r + i < length l" using sp by auto
    then show "f x \<le> f y" using sp by auto
  qed
  show ?thesis using a b by simp
qed

lemma splice_in_sorted:
  assumes K: "sorted_wrt (\<lambda>a b. f a < f b) l" and fresh: "\<forall>y \<in> set l. f y \<noteq> f x"
  shows "sorted_wrt (\<lambda>a b. f a < f b) (splice_in (sortedIndexBy l x f) x l)
       \<and> set (splice_in (sortedIndexBy l x f) x l) = insert x (set l)"
proof -
  let ?r = "sortedIndexBy l x f"
  note sp = sortedIndexBy_split[OF K, of x]
  have "sorted_wrt (\<lambda>a b. f a < f b) (take ?r l @ drop ?r l)" using K by simp
  then have cross: "\<forall>a \<in> set (take ?r l). \<forall>b \<in> set (drop ?r l). f a < f b"
    by (simp only: sorted_wrt_append) blast
  have d: "\<forall>y \<in> set (drop ?r l). f x < f y"
  proof
    fix y assume y: "y \<in> set (drop ?r l)"
    then have "y \<in> set l" by (rule in_set_dropD)
    with fresh have ne: "f y \<noteq> f x" by simp
    from sp y have "f x \<le> f y" by blast
    with ne show "f x < f y" by simp
  qed
  have s: "sorted_wrt (\<lambda>a b. f a < f b) (take ?r l @ [x] @ drop ?r l)"
    using K sp cross d by (simp add: sorted_wrt_append)
  have "set (take ?r l @ [x] @ drop ?r l) = insert x (set (take ?r l @ drop ?r l))"
    by (simp only: set_append) auto
  then have t: "set (take ?r l @ [x] @ drop ?r l) = insert x (set l)" by simp
  show ?thesis using s t by (simp add: splice_in_def)
qed

lemma sortedIndexBy_finds:
  assumes K: "sorted_wrt (\<lambda>a b. f a < f b) l" and x: "x \<in> set l"
  shows "sortedIndexBy l x f < length l \<and> l ! sortedIndexBy l x f = x"
proof -
  let ?r = "sortedIndexBy l x f"
  from keys_sorted[OF K] have s: "sorted (map f l)" and dl: "distinct l" by simp_all
  note sp = sortedIndexBy_spec[OF s, of x]
  from x obtain j where j: "j < length l" "l ! j = x" by (auto simp: in_set_conv_nth)
  have "\<not> j < ?r" using sp j by auto
  moreover have "\<not> ?r < j"
  proof
    assume lt: "?r < j"
    have "f (l ! ?r) < f (l ! j)"
      by (rule sorted_wrt_nth_less[OF K lt j(1)])
    moreover have "f x \<le> f (l ! ?r)" using sp lt j by auto
    ultimately show False using j by simp
  qed
  ultimately have "?r = j" by simp
  with j show ?thesis by simp
qed

lemma splice_out_sorted:
  assumes K: "sorted_wrt (\<lambda>a b. f a < f b) l"
    and U: "\<forall>y \<in> set l. g y = g x \<longrightarrow> y = x"
  shows "sorted_wrt (\<lambda>a b. f a < f b)
           (if sortedIndexBy l x f < length l \<and> g (l ! sortedIndexBy l x f) = g x
            then splice_out (sortedIndexBy l x f) l else l)
       \<and> set (if sortedIndexBy l x f < length l \<and> g (l ! sortedIndexBy l x f) = g x
              then splice_out (sortedIndexBy l x f) l else l) = set l - {x}"
proof (cases "sortedIndexBy l x f < length l \<and> g (l ! sortedIndexBy l x f) = g x")
  case True
  let ?r = "sortedIndexBy l x f"
  from True U have lx: "l ! ?r = x" by simp
  from True have e: "l = take ?r l @ x # drop (Suc ?r) l"
    using id_take_nth_drop[of ?r l] lx by simp
  from keys_sorted[OF K] have "distinct l" by simp
  then have "distinct (take ?r l @ x # drop (Suc ?r) l)" using e by simp
  then have nx: "x \<notin> set (take ?r l)" "x \<notin> set (drop (Suc ?r) l)" by auto
  have "set l = set (take ?r l @ x # drop (Suc ?r) l)" using e by simp
  then have t: "set (take ?r l @ drop (Suc ?r) l) = set l - {x}" using nx by auto
  have "sorted_wrt (\<lambda>a b. f a < f b) (take ?r l @ x # drop (Suc ?r) l)" using K e by simp
  then have s: "sorted_wrt (\<lambda>a b. f a < f b) (take ?r l @ drop (Suc ?r) l)"
    by (simp add: sorted_wrt_append)
  show ?thesis using True s t by (simp add: splice_out_def)
next
  case False
  have "x \<notin> set l"
  proof
    assume "x \<in> set l"
    from sortedIndexBy_finds[OF K this] False show False by simp
  qed
  then have "set l - {x} = set l" by simp
  then show ?thesis unfolding if_not_P[OF False] using K by simp
qed

lemma keys_sorted_unique:
  fixes f :: "'a \<Rightarrow> 'k::linorder"
  assumes "sorted_wrt (\<lambda>a b. f a < f b) l1" "sorted_wrt (\<lambda>a b. f a < f b) l2" "set l1 = set l2"
  shows "l1 = l2"
proof -
  from keys_sorted[OF assms(1)] keys_sorted[OF assms(2)] assms(3)
  have "map f l1 = map f l2"
    by (intro sorted_distinct_set_unique) simp_all
  moreover have "inj_on f (set l1 \<union> set l2)"
    using keys_sorted[OF assms(1)] assms(3) by (simp add: distinct_map)
  ultimately show ?thesis by (simp add: inj_on_map_eq_map)
qed

lemma sort_key_keys_sorted:
  assumes "distinct (map f xs)"
  shows "sorted_wrt (\<lambda>a b. f a < f b) (sort_key f xs)"
proof -
  have "mset (map f (sort_key f xs)) = mset (map f xs)" by simp
  then have "distinct (map f (sort_key f xs))"
    using assms mset_eq_imp_distinct_iff by blast
  moreover have "sorted (map f (sort_key f xs))" by (rule sorted_sort_key)
  ultimately have "sorted_wrt (<) (map f (sort_key f xs))" by (simp add: strict_sorted_iff)
  then show ?thesis by (simp add: sorted_wrt_map)
qed


section \<open>The sort key determines the issue id\<close>

lemma digit_char_no_dash: "d < 10 \<Longrightarrow> digit_char d \<noteq> CHR ''-''"
proof -
  assume "d < 10"
  then have "d \<in> {0, 1, 2, 3, 4, 5, 6, 7, 8, 9}" by auto
  then show ?thesis by (auto simp: digit_char_def)
qed

lemma digits_no_dash: "CHR ''-'' \<notin> set (digits n)"
proof (induction n rule: digits.induct)
  case (1 n)
  show ?case
  proof (cases "n < 10")
    case True
    then show ?thesis using digit_char_no_dash[of n] by (simp add: digits.simps[of n])
  next
    case False
    have "n mod 10 < 10" by simp
    with False "1.IH" show ?thesis
      using digit_char_no_dash[of "n mod 10"] by (simp add: digits.simps[of n])
  qed
qed

lemma digits_not_Nil: "digits n \<noteq> []"
  by (simp add: digits.simps[of n])

lemma dash_split:
  "CHR ''-'' \<notin> set a \<Longrightarrow> CHR ''-'' \<notin> set b \<Longrightarrow> a @ CHR ''-'' # r1 = b @ CHR ''-'' # r2 \<Longrightarrow>
   a = b \<and> r1 = r2"
proof (induction a arbitrary: b)
  case Nil
  then show ?case by (cases b) auto
next
  case (Cons x a)
  then show ?case by (cases b) auto
qed

lemma numberToString_split:
  assumes "numberToString n @ CHR ''-'' # r1 = numberToString n' @ CHR ''-'' # r2"
  shows "r1 = r2"
proof -
  consider "n < 0" "n' < 0" | "\<not> n < 0" "\<not> n' < 0" | "n < 0" "\<not> n' < 0" | "\<not> n < 0" "n' < 0"
    by blast
  then show ?thesis
  proof cases
    case 1
    with assms have "digits (nat (- n)) @ CHR ''-'' # r1 = digits (nat (- n')) @ CHR ''-'' # r2"
      by (simp add: numberToString_def)
    from dash_split[OF digits_no_dash digits_no_dash this] show ?thesis by simp
  next
    case 2
    with assms have "digits (nat n) @ CHR ''-'' # r1 = digits (nat n') @ CHR ''-'' # r2"
      by (simp add: numberToString_def)
    from dash_split[OF digits_no_dash digits_no_dash this] show ?thesis by simp
  next
    case 3
    with assms have e: "CHR ''-'' # digits (nat (- n)) @ CHR ''-'' # r1 = digits (nat n') @ CHR ''-'' # r2"
      by (simp add: numberToString_def)
    obtain c cs where c: "digits (nat n') = c # cs"
      using digits_not_Nil[of "nat n'"] by (cases "digits (nat n')") auto
    with e have "c = CHR ''-''" by simp
    with c digits_no_dash[of "nat n'"] show ?thesis by simp
  next
    case 4
    with assms have e: "digits (nat n) @ CHR ''-'' # r1 = CHR ''-'' # digits (nat (- n')) @ CHR ''-'' # r2"
      by (simp add: numberToString_def)
    obtain c cs where c: "digits (nat n) = c # cs"
      using digits_not_Nil[of "nat n"] by (cases "digits (nat n)") auto
    with e have "c = CHR ''-''" by simp
    with c digits_no_dash[of "nat n"] show ?thesis by simp
  qed
qed

lemma order_id: "order io a = order io b \<Longrightarrow> issue_id a = issue_id b"
  by (auto simp: order_def Let_def dest: numberToString_split)


section \<open>The sort key orders by time, then by id\<close>

lemma digit_char_less: "d < 10 \<Longrightarrow> e < 10 \<Longrightarrow> (digit_char d < digit_char e) = (d < e)"
proof -
  assume "d < 10" "e < 10"
  then have "d \<in> {0, 1, 2, 3, 4, 5, 6, 7, 8, 9}" "e \<in> {0, 1, 2, 3, 4, 5, 6, 7, 8, 9}" by auto
  then show ?thesis by (auto simp: digit_char_def)
qed

lemma digit_char_eq: "d < 10 \<Longrightarrow> e < 10 \<Longrightarrow> (digit_char d = digit_char e) = (d = e)"
proof -
  assume "d < 10" "e < 10"
  then have "d \<in> {0, 1, 2, 3, 4, 5, 6, 7, 8, 9}" "e \<in> {0, 1, 2, 3, 4, 5, 6, 7, 8, 9}" by auto
  then show ?thesis by (auto simp: digit_char_def)
qed


lemma digits_length_one: "(length (digits n) = 1) = (n < 10)"
proof (cases "n < 10")
  case True
  then show ?thesis by (simp add: digits.simps[of n])
next
  case False
  have "digits (n div 10) \<noteq> []" by (rule digits_not_Nil)
  then have "length (digits (n div 10)) \<noteq> 0" by simp
  with False show ?thesis by (simp add: digits.simps[of n])
qed

lemma lex_div_mod:
  fixes x y u v :: nat
  assumes "u < 10" "v < 10"
  shows "(10 * x + u < 10 * y + v) = (x < y \<or> (x = y \<and> u < v))"
    and "(10 * x + u = 10 * y + v) = (x = y \<and> u = v)"
proof -
  consider "x < y" | "x = y" | "y < x" by linarith
  then have "(10 * x + u < 10 * y + v) = (x < y \<or> (x = y \<and> u < v))
           \<and> (10 * x + u = 10 * y + v) = (x = y \<and> u = v)"
  proof cases
    case 1
    then have "10 * x + 10 \<le> 10 * y" by simp
    with assms 1 show ?thesis by simp
  next
    case 2
    then show ?thesis by simp
  next
    case 3
    then have "10 * y + 10 \<le> 10 * x" by simp
    with assms 3 show ?thesis by simp
  qed
  then show "(10 * x + u < 10 * y + v) = (x < y \<or> (x = y \<and> u < v))"
    and "(10 * x + u = 10 * y + v) = (x = y \<and> u = v)" by simp_all
qed

lemma digits_less:
  "length (digits a) = length (digits b) \<Longrightarrow>
   (digits a @ r1 < digits b @ r2) = (a < b \<or> (a = b \<and> r1 < r2))"
proof (induction a arbitrary: b r1 r2 rule: digits.induct)
  case (1 a)
  show ?case
  proof (cases "a < 10")
    case True
    then have "length (digits a) = 1" using digits_length_one[of a] by simp
    with "1.prems" have b: "b < 10" using digits_length_one[of b] by simp
    show ?thesis
      using True b digit_char_less[OF True b] digit_char_eq[OF True b]
      by (simp add: digits.simps[of a] digits.simps[of b])
  next
    case False
    then have "length (digits a) \<noteq> 1" using digits_length_one[of a] by simp
    with "1.prems" have b: "\<not> b < 10" using digits_length_one[of b] by simp
    have da: "digits a = digits (a div 10) @ [digit_char (a mod 10)]"
      using False by (simp add: digits.simps[of a])
    have db: "digits b = digits (b div 10) @ [digit_char (b mod 10)]"
      using b by (simp add: digits.simps[of b])
    have len: "length (digits (a div 10)) = length (digits (b div 10))"
      using "1.prems" by (simp add: da db)
    have m: "a mod 10 < 10" "b mod 10 < 10" by simp_all
    have IH: "(digits (a div 10) @ digit_char (a mod 10) # r1
                < digits (b div 10) @ digit_char (b mod 10) # r2)
              = (a div 10 < b div 10
                 \<or> (a div 10 = b div 10
                     \<and> digit_char (a mod 10) # r1 < digit_char (b mod 10) # r2))"
      by (rule "1.IH"[OF False len])
    have L: "(digit_char (a mod 10) # r1 < digit_char (b mod 10) # r2)
             = (a mod 10 < b mod 10 \<or> (a mod 10 = b mod 10 \<and> r1 < r2))"
      using digit_char_less[OF m] digit_char_eq[OF m] by simp
    have "(digits a @ r1 < digits b @ r2)
          = (a div 10 < b div 10
             \<or> (a div 10 = b div 10
                 \<and> (a mod 10 < b mod 10 \<or> (a mod 10 = b mod 10 \<and> r1 < r2))))"
      unfolding da db append_assoc append_Cons append_Nil IH L ..
    also have "\<dots> = ((a div 10 < b div 10 \<or> (a div 10 = b div 10 \<and> a mod 10 < b mod 10))
                     \<or> ((a div 10 = b div 10 \<and> a mod 10 = b mod 10) \<and> r1 < r2))"
      by blast
    also have "(a div 10 < b div 10 \<or> (a div 10 = b div 10 \<and> a mod 10 < b mod 10))
               = (10 * (a div 10) + a mod 10 < 10 * (b div 10) + b mod 10)"
      by (rule lex_div_mod(1)[OF m, symmetric])
    also have "(a div 10 = b div 10 \<and> a mod 10 = b mod 10)
               = (10 * (a div 10) + a mod 10 = 10 * (b div 10) + b mod 10)"
      by (rule lex_div_mod(2)[OF m, symmetric])
    finally show ?thesis by simp
  qed
qed

lemma digits_length: "10 ^ k \<le> n \<Longrightarrow> n < 10 ^ Suc k \<Longrightarrow> length (digits n) = Suc k"
proof (induction k arbitrary: n)
  case 0
  then show ?case by (simp add: digits.simps[of n])
next
  case (Suc k)
  have "(1::nat) \<le> 10 ^ k" by simp
  then have "(10::nat) \<le> 10 ^ Suc k" by simp
  then have ge: "\<not> n < 10" using Suc.prems(1) by linarith
  have "10 ^ k \<le> n div 10" using Suc.prems(1) by (simp add: less_eq_div_iff_mult_less_eq mult.commute)
  moreover have "n div 10 < 10 ^ Suc k" using Suc.prems(2) by (simp add: div_less_iff_less_mult mult.commute)
  ultimately have "length (digits (n div 10)) = Suc k" by (rule Suc.IH)
  with ge show ?case by (simp add: digits.simps[of n])
qed

lemma sixteen_digits:
  assumes "0 \<le> t" "t \<le> 8007199254740991"
  shows "numberToString (MAX_SAFE_INTEGER - t) = digits (nat (MAX_SAFE_INTEGER - t))
       \<and> length (digits (nat (MAX_SAFE_INTEGER - t))) = 16"
proof -
  have a: "(10::nat) ^ 15 \<le> nat (MAX_SAFE_INTEGER - t)"
    using assms by (simp add: MAX_SAFE_INTEGER_def)
  have b: "nat (MAX_SAFE_INTEGER - t) < 10 ^ Suc 15"
    using assms by (simp add: MAX_SAFE_INTEGER_def)
  from digits_length[OF a b] assms show ?thesis
    by (simp add: numberToString_def MAX_SAFE_INTEGER_def)
qed

lemma order_less_iff:
  assumes "0 \<le> time_of io a" "time_of io a \<le> 8007199254740991"
    and "0 \<le> time_of io b" "time_of io b \<le> 8007199254740991"
  shows "(order io a < order io b) = newer_first io a b"
proof -
  note A = sixteen_digits[OF assms(1,2)] and B = sixteen_digits[OF assms(3,4)]
  have len: "length (digits (nat (MAX_SAFE_INTEGER - time_of io a)))
             = length (digits (nat (MAX_SAFE_INTEGER - time_of io b)))"
    using A B by simp
  have o: "order io x = numberToString (MAX_SAFE_INTEGER - time_of io x) @ CHR ''-'' # issue_id x" for x :: "('s, 'p) Issue"
    by (simp add: order_def time_of_def Let_def)
  have n: "(nat (MAX_SAFE_INTEGER - time_of io a) < nat (MAX_SAFE_INTEGER - time_of io b))
           = (time_of io b < time_of io a)"
    "(nat (MAX_SAFE_INTEGER - time_of io a) = nat (MAX_SAFE_INTEGER - time_of io b))
           = (time_of io a = time_of io b)"
    using assms by (auto simp: MAX_SAFE_INTEGER_def)
  show ?thesis
    unfolding o using A B digits_less[OF len] n
    by (simp add: newer_first_def)
qed

section \<open>The reducer keeps its list filtered and sorted\<close>

lemma list_inv_add:
  assumes "list_inv io fs W l" and fresh: "\<forall>y \<in> W. order io y \<noteq> order io new"
  shows "list_inv io fs (insert new W)
           (if Filters_filter fs new
            then splice_in (sortedIndexBy l new (order io)) new l else l)"
proof (cases "Filters_filter fs new")
  case True
  from assms have K: "sorted_wrt (\<lambda>a b. order io a < order io b) l"
    and S: "set l = {i \<in> W. Filters_filter fs i}" by (simp_all add: list_inv_def)
  have "\<forall>y \<in> set l. order io y \<noteq> order io new" using S fresh by auto
  from splice_in_sorted[OF K this] True S show ?thesis
    by (auto simp: list_inv_def)
next
  case False
  with assms(1) show ?thesis by (auto simp: list_inv_def)
qed

lemma list_inv_del:
  assumes "list_inv io fs V l" and U: "\<forall>y \<in> V. issue_id y = issue_id old \<longrightarrow> y = old"
  shows "list_inv io fs (V - {old})
           (if sortedIndexBy l old (order io) < length l
               \<and> issue_id (l ! sortedIndexBy l old (order io)) = issue_id old
            then splice_out (sortedIndexBy l old (order io)) l else l)"
proof -
  from assms have K: "sorted_wrt (\<lambda>a b. order io a < order io b) l"
    and S: "set l = {i \<in> V. Filters_filter fs i}" by (simp_all add: list_inv_def)
  have "\<forall>y \<in> set l. issue_id y = issue_id old \<longrightarrow> y = old" using S U by auto
  from splice_out_sorted[OF K this] S show ?thesis
    unfolding list_inv_def by auto
qed

lemma set_update:
  "distinct (map fst m) \<Longrightarrow> set (AList.update k v m) = insert (k, v) {e \<in> set m. fst e \<noteq> k}"
  by (induction m) (auto simp: rev_image_eqI)

lemma set_delete: "set (AList.delete k m) = {e \<in> set m. fst e \<noteq> k}"
  by (auto simp: AList.delete_eq)

lemma wf_map_update: "wf_map f m \<Longrightarrow> wf_map f (AList.update k (f k v) m)"
  unfolding wf_map_def by (auto simp: distinct_update set_update)

lemma wf_map_delete: "wf_map f m \<Longrightarrow> wf_map f (AList.delete k m)"
  unfolding wf_map_def by (auto simp: distinct_delete set_delete)

lemma wf_map_ids:
  assumes "id_determines_key f" "wf_map f m" "(k, i) \<in> set m" "(k', i') \<in> set m"
    "issue_id i = issue_id i'"
  shows "k = k' \<and> i = i'"
proof -
  from assms(2,3,4) obtain v v' where "i = f k v" "i' = f k' v'"
    unfolding wf_map_def by fastforce
  with assms(1,5) have "k = k'" unfolding id_determines_key_def by blast
  moreover from assms(2) have "distinct (map fst m)" by (simp add: wf_map_def)
  ultimately show ?thesis using assms(3,4) by (auto dest: eq_key_imp_eq_value)
qed

lemma vals_absent:
  "map_of m k = None \<Longrightarrow> snd ` {e \<in> set m. fst e \<noteq> k} = snd ` set m"
  by (force simp: map_of_eq_None_iff)

lemma vals_present:
  assumes "id_determines_key f" "wf_map f m" "map_of m k = Some old"
  shows "snd ` {e \<in> set m. fst e \<noteq> k} = snd ` set m - {old}"
proof -
  have in_m: "(k, old) \<in> set m" using assms(3) by (rule map_of_SomeD)
  have d: "distinct (map fst m)" using assms(2) by (simp add: wf_map_def)
  show ?thesis
  proof (intro set_eqI iffI)
    fix y assume "y \<in> snd ` {e \<in> set m. fst e \<noteq> k}"
    then obtain k' where k': "(k', y) \<in> set m" "k' \<noteq> k" by auto
    have "y \<noteq> old"
    proof
      assume "y = old"
      with wf_map_ids[OF assms(1,2) k'(1) in_m] k'(2) show False by simp
    qed
    with k' show "y \<in> snd ` set m - {old}" by force
  next
    fix y assume "y \<in> snd ` set m - {old}"
    then obtain k' where k': "(k', y) \<in> set m" "y \<noteq> old" by auto
    with in_m d have "k' \<noteq> k" by (auto dest: eq_key_imp_eq_value)
    with k' show "y \<in> snd ` {e \<in> set m. fst e \<noteq> k}" by force
  qed
qed

lemma fresh_order:
  assumes "id_determines_key f" "wf_map f m"
  shows "\<forall>y \<in> snd ` {e \<in> set m. fst e \<noteq> k}. order io y \<noteq> order io (f k v)"
proof
  fix y assume "y \<in> snd ` {e \<in> set m. fst e \<noteq> k}"
  then obtain k' where k': "(k', y) \<in> set m" "k' \<noteq> k" by auto
  with assms(2) obtain v' where "y = f k' v'" unfolding wf_map_def by fastforce
  with assms(1) k'(2) have "issue_id y \<noteq> issue_id (f k v)"
    unfolding id_determines_key_def by blast
  then show "order io y \<noteq> order io (f k v)" by (auto dest: order_id)
qed

lemma applyDiffOp_inv:
  assumes I: "id_determines_key f" and inv: "step_inv f fs io st" and wf: "wf_op f (fst st) x"
  shows "step_inv f fs io (applyDiffOp f fs io st x)"
proof -
  obtain m c l where st: "st = (m, c, l)" by (cases st) auto
  from inv st have W: "wf_map f m" and L: "list_inv io fs (snd ` set m) l"
    by (simp_all add: step_inv_def)
  from W have d: "distinct (map fst m)" by (simp add: wf_map_def)
  show ?thesis
  proof (cases x)
    case (DiffAdd k v)
    with wf st have n: "map_of m k = None" by simp
    have L0: "list_inv io fs (snd ` {e \<in> set m. fst e \<noteq> k}) l"
      using L by (simp add: vals_absent[OF n])
    from list_inv_add[OF L0 fresh_order[OF I W, of k io v]]
    show ?thesis
      unfolding st DiffAdd step_inv_def
      by (simp add: Let_def wf_map_update[OF W] set_update[OF d])
  next
    case (DiffDel k v)
    with wf st have p: "map_of m k = Some (f k v)" by simp
    have in_m: "(k, f k v) \<in> set m" using p by (rule map_of_SomeD)
    have U: "\<forall>y \<in> snd ` set m. issue_id y = issue_id (f k v) \<longrightarrow> y = f k v"
      using wf_map_ids[OF I W _ in_m] by auto
    from list_inv_del[OF L U]
    show ?thesis
      unfolding st DiffDel step_inv_def
      by (simp add: Let_def wf_map_delete[OF W] set_delete vals_present[OF I W p])
  next
    case (DiffChange k v v')
    with wf st have p: "map_of m k = Some (f k v)" by simp
    have in_m: "(k, f k v) \<in> set m" using p by (rule map_of_SomeD)
    have U: "\<forall>y \<in> snd ` set m. issue_id y = issue_id (f k v) \<longrightarrow> y = f k v"
      using wf_map_ids[OF I W _ in_m] by auto
    have L1: "list_inv io fs (snd ` {e \<in> set m. fst e \<noteq> k})
           (if sortedIndexBy l (f k v) (order io) < length l
               \<and> issue_id (l ! sortedIndexBy l (f k v) (order io)) = issue_id (f k v)
            then splice_out (sortedIndexBy l (f k v) (order io)) l else l)"
      using list_inv_del[OF L U] by (simp add: vals_present[OF I W p])
    from list_inv_add[OF L1 fresh_order[OF I W, of k io v']]
    show ?thesis
      unfolding st DiffChange step_inv_def
      by (simp add: Let_def wf_map_update[OF W] set_update[OF d])
  qed
qed

lemma foldl_applyDiffOp_inv:
  "id_determines_key f \<Longrightarrow> step_inv f fs io st \<Longrightarrow> wf_diff f fs io st d \<Longrightarrow>
   step_inv f fs io (foldl (applyDiffOp f fs io) st d)"
proof (induction d arbitrary: st)
  case Nil
  then show ?case by simp
next
  case (Cons x d)
  from Cons.prems have "step_inv f fs io (applyDiffOp f fs io st x)"
    by (simp add: applyDiffOp_inv)
  with Cons show ?case by simp
qed

lemma wf_map_keys:
  assumes "id_determines_key f" "wf_map f m"
  shows "distinct (map (order io) (map snd m))"
proof -
  have "inj_on (\<lambda>e. order io (snd e)) (set m)"
  proof (rule inj_onI)
    fix a b assume a: "a \<in> set m" and b: "b \<in> set m"
      and e: "order io (snd a) = order io (snd b)"
    from e have "issue_id (snd a) = issue_id (snd b)" by (rule order_id)
    from wf_map_ids[OF assms, of "fst a" "snd a" "fst b" "snd b"] a b this
    show "a = b" by (simp add: prod_eq_iff)
  qed
  moreover have "distinct m" using assms(2) by (simp add: wf_map_def distinct_map)
  ultimately have "distinct (map (\<lambda>e. order io (snd e)) m)" by (simp add: distinct_map)
  then show ?thesis by (simp add: comp_def)
qed

lemma filterAndSort_inv:
  assumes "id_determines_key f" "wf_map f m"
  shows "list_inv io fs (snd ` set m) (filterAndSort fs io (map snd m))"
proof -
  have "distinct (map (order io) (filter (Filters_filter fs) (map snd m)))"
    using wf_map_keys[OF assms, of io] by (rule distinct_map_filter)
  from sort_key_keys_sorted[OF this] show ?thesis
    by (auto simp: list_inv_def filterAndSort_def sortBy_def)
qed

lemma list_inv_unique:
  "list_inv io fs V l \<Longrightarrow> list_inv io' fs V l' \<Longrightarrow> io' = io \<Longrightarrow> l = l'"
  unfolding list_inv_def by (auto intro: keys_sorted_unique)

lemma reachable_inv:
  assumes I: "id_determines_key f" and r: "reachable f s"
  shows "state_inv f s"
  using r
proof (induction rule: reachable.induct)
  case (reach_init m s)
  then show ?case
    using filterAndSort_inv[OF I reach_init]
    by (simp add: state_inv_def step_inv_def reducer_def Let_def)
next
  case (reach_diff s d)
  from foldl_applyDiffOp_inv[OF I reach_diff.IH[unfolded state_inv_def] reach_diff.hyps(2)]
  show ?case
    by (simp add: state_inv_def step_inv_def reducer_def case_prod_beta Let_def)
next
  case (reach_setFilters s fs)
  then have "wf_map f (allIssuesMap s)" by (simp add: state_inv_def step_inv_def)
  from filterAndSort_inv[OF I this] show ?case
    using reach_setFilters.IH
    by (simp add: state_inv_def step_inv_def reducer_def Let_def)
next
  case (reach_setIssueOrder s io)
  then have W: "wf_map f (allIssuesMap s)"
    and L: "list_inv (issueOrder s) (filters s) (snd ` set (allIssuesMap s)) (filteredIssues s)"
    by (simp_all add: state_inv_def step_inv_def)
  have "distinct (map (order io) (map snd (allIssuesMap s)))" by (rule wf_map_keys[OF I W])
  then have "distinct (map (order io) (filter (Filters_filter (filters s)) (map snd (allIssuesMap s))))"
    by (rule distinct_map_filter)
  moreover have "set (filteredIssues s) = set (filter (Filters_filter (filters s)) (map snd (allIssuesMap s)))"
    using L by (auto simp: list_inv_def)
  moreover have "distinct (filteredIssues s)" using L keys_sorted by (auto simp: list_inv_def)
  ultimately have "distinct (map (order io) (filteredIssues s))"
    using W by (metis distinct_map inj_on_subset subset_refl distinct_filter distinct_map_filter)
  from sort_key_keys_sorted[OF this] L W show ?case
    by (simp add: state_inv_def step_inv_def reducer_def sortBy_def list_inv_def Let_def)
qed

text \<open>
  C2. Let \<open>issueFromKeyAndValue\<close> give issues with the same id only for the same key.
  In every state reached from an \<open>init\<close> with a map built by it, by any sequence of
  well-formed diffs (and of filter and order changes), \<open>filteredIssues\<close> is what a
  recomputation gives: the values of \<open>allIssuesMap\<close> filtered by the view filter and the
  additional filter, sorted by the key of the configured order. For timestamps from 0 to
  8007199254740991, whose keys have sixteen digits, that is descending in the created or
  modified time with ties broken by the issue id.
\<close>

theorem reducer_filtered_list_from_scratch:
  assumes "id_determines_key f" and "reachable f s"
  shows "filteredIssues s = filterAndSort (filters s) (issueOrder s) (map snd (allIssuesMap s))
       \<and> ((\<forall>i \<in> set (filteredIssues s).
               0 \<le> time_of (issueOrder s) i \<and> time_of (issueOrder s) i \<le> 8007199254740991)
            \<longrightarrow> sorted_wrt (newer_first (issueOrder s)) (filteredIssues s))"
proof -
  from reachable_inv[OF assms] have W: "wf_map f (allIssuesMap s)"
    and L: "list_inv (issueOrder s) (filters s) (snd ` set (allIssuesMap s)) (filteredIssues s)"
    by (simp_all add: state_inv_def step_inv_def)
  from list_inv_unique[OF L filterAndSort_inv[OF assms(1) W]]
  have e: "filteredIssues s = filterAndSort (filters s) (issueOrder s) (map snd (allIssuesMap s))"
    by simp
  have K: "sorted_wrt (\<lambda>a b. order (issueOrder s) a < order (issueOrder s) b) (filteredIssues s)"
    using L by (simp add: list_inv_def)
  have "sorted_wrt (newer_first (issueOrder s)) (filteredIssues s)"
    if r: "\<forall>i \<in> set (filteredIssues s).
             0 \<le> time_of (issueOrder s) i \<and> time_of (issueOrder s) i \<le> 8007199254740991"
  proof (rule sorted_wrt_mono_rel[OF _ K])
    fix a b
    assume "a \<in> set (filteredIssues s)" "b \<in> set (filteredIssues s)"
      and "order (issueOrder s) a < order (issueOrder s) b"
    with r show "newer_first (issueOrder s) a b" by (simp add: order_less_iff)
  qed
  with e show ?thesis by simp
qed

section \<open>The reducer on the sample issues\<close>

lemma sample_id_determines_key: "id_determines_key sample_issueFromKeyAndValue"
  by (simp add: id_determines_key_def sample_issueFromKeyAndValue_def)

lemma sample_issue_id [simp]: "issue_id (sample_issueFromKeyAndValue k v) = k"
  by (simp add: sample_issueFromKeyAndValue_def)

lemma sample_view [simp]:
  "Filter_filter (viewFilter active_filters) (sample_issueFromKeyAndValue k issue_a)"
  "Filter_filter (viewFilter active_filters) (sample_issueFromKeyAndValue k issue_b)"
  "\<not> Filter_filter (viewFilter active_filters) (sample_issueFromKeyAndValue k issue_c)"
  by (simp_all add: Filter_filter_def active_filters_def sample_issueFromKeyAndValue_def
        issue_a_def issue_b_def issue_c_def issue_value_def)

lemma sample_filters [simp]:
  "Filters_filter active_filters i = Filter_filter (viewFilter active_filters) i"
  by (simp add: Filters_filter_def Filter_filter_def active_filters_def)

lemma sample_order [simp]:
  "order MODIFIED (sample_issueFromKeyAndValue k issue_a) = ''9007199254735991-'' @ k"
  "order MODIFIED (sample_issueFromKeyAndValue k issue_b) = ''9007199254736991-'' @ k"
  "order MODIFIED (sample_issueFromKeyAndValue k issue_c) = ''9007199254734991-'' @ k"
  "order CREATED (sample_issueFromKeyAndValue k issue_a) = ''9007199254739991-'' @ k"
  "order CREATED (sample_issueFromKeyAndValue k issue_b) = ''9007199254738991-'' @ k"
  "order CREATED (sample_issueFromKeyAndValue k issue_c) = ''9007199254737991-'' @ k"
  by (simp_all add: order_def numberToString_def MAX_SAFE_INTEGER_def digits.simps digit_char_def
        sample_issueFromKeyAndValue_def issue_a_def issue_b_def issue_c_def issue_value_def)

lemma sample_index [simp]:
  "sortedIndexBy [sample_issueFromKeyAndValue ''a'' issue_a]
     (sample_issueFromKeyAndValue ''b'' issue_b) (order MODIFIED) = 1"
  "sortedIndexBy [sample_issueFromKeyAndValue ''a'' issue_a, sample_issueFromKeyAndValue ''b'' issue_b]
     (sample_issueFromKeyAndValue ''c'' issue_c) (order MODIFIED) = 0"
  "sortedIndexBy [sample_issueFromKeyAndValue ''a'' issue_a, sample_issueFromKeyAndValue ''b'' issue_b]
     (sample_issueFromKeyAndValue ''c'' issue_a) (order MODIFIED) = 1"
  "sortedIndexBy [sample_issueFromKeyAndValue ''a'' issue_a, sample_issueFromKeyAndValue ''c'' issue_a,
        sample_issueFromKeyAndValue ''b'' issue_b]
     (sample_issueFromKeyAndValue ''a'' issue_a) (order MODIFIED) = 0"
  "sortedIndexBy [sample_issueFromKeyAndValue ''a'' issue_a]
     (sample_issueFromKeyAndValue ''a'' issue_a) (order MODIFIED) = 0"
  "sortedIndexBy [sample_issueFromKeyAndValue ''a'' issue_a, sample_issueFromKeyAndValue ''a'' issue_a]
     (sample_issueFromKeyAndValue ''a'' issue_a) (order MODIFIED) = 0"
  by (simp_all add: sortedIndexBy_def baseSortedIndexBy.simps Let_def)

lemmas reducer_steps = reducer_def sortBy_def filterAndSort_def
  countViewIssues_def splice_in_def splice_out_def empty_state_def Let_def

lemma state_a_eval:
  "state_a = \<lparr>allIssuesMap = [(''a'', sample_issueFromKeyAndValue ''a'' issue_a)],
     viewIssueCount = 1,
     filteredIssues = [sample_issueFromKeyAndValue ''a'' issue_a],
     filters = active_filters, issueOrder = MODIFIED\<rparr>"
  by (simp add: state_a_def reducer_steps)

lemma state_bc_eval:
  "state_bc = \<lparr>allIssuesMap = [(''b'', sample_issueFromKeyAndValue ''b'' issue_b),
                                (''c'', sample_issueFromKeyAndValue ''c'' issue_a)],
     viewIssueCount = 2,
     filteredIssues = [sample_issueFromKeyAndValue ''c'' issue_a,
                       sample_issueFromKeyAndValue ''b'' issue_b],
     filters = active_filters, issueOrder = MODIFIED\<rparr>"
  by (simp add: state_bc_def diff_bc_def state_a_eval reducer_steps)

lemma diff_bc_steps:
  "applyDiffOp sample_issueFromKeyAndValue active_filters MODIFIED
     ([(''a'', sample_issueFromKeyAndValue ''a'' issue_a)], 1,
      [sample_issueFromKeyAndValue ''a'' issue_a]) (DiffAdd ''b'' issue_b)
   = ([(''a'', sample_issueFromKeyAndValue ''a'' issue_a),
       (''b'', sample_issueFromKeyAndValue ''b'' issue_b)], 2,
      [sample_issueFromKeyAndValue ''a'' issue_a, sample_issueFromKeyAndValue ''b'' issue_b])"
  "applyDiffOp sample_issueFromKeyAndValue active_filters MODIFIED
     ([(''a'', sample_issueFromKeyAndValue ''a'' issue_a),
       (''b'', sample_issueFromKeyAndValue ''b'' issue_b)], 2,
      [sample_issueFromKeyAndValue ''a'' issue_a, sample_issueFromKeyAndValue ''b'' issue_b])
     (DiffAdd ''c'' issue_c)
   = ([(''a'', sample_issueFromKeyAndValue ''a'' issue_a),
       (''b'', sample_issueFromKeyAndValue ''b'' issue_b),
       (''c'', sample_issueFromKeyAndValue ''c'' issue_c)], 2,
      [sample_issueFromKeyAndValue ''a'' issue_a, sample_issueFromKeyAndValue ''b'' issue_b])"
  "applyDiffOp sample_issueFromKeyAndValue active_filters MODIFIED
     ([(''a'', sample_issueFromKeyAndValue ''a'' issue_a),
       (''b'', sample_issueFromKeyAndValue ''b'' issue_b),
       (''c'', sample_issueFromKeyAndValue ''c'' issue_c)], 2,
      [sample_issueFromKeyAndValue ''a'' issue_a, sample_issueFromKeyAndValue ''b'' issue_b])
     (DiffChange ''c'' issue_c issue_a)
   = ([(''a'', sample_issueFromKeyAndValue ''a'' issue_a),
       (''b'', sample_issueFromKeyAndValue ''b'' issue_b),
       (''c'', sample_issueFromKeyAndValue ''c'' issue_a)], 3,
      [sample_issueFromKeyAndValue ''a'' issue_a, sample_issueFromKeyAndValue ''c'' issue_a,
       sample_issueFromKeyAndValue ''b'' issue_b])"
  by (simp_all add: reducer_steps)

lemma state_bc_reachable: "reachable sample_issueFromKeyAndValue state_bc"
  unfolding state_bc_def
proof (rule reach_diff)
  show "reachable sample_issueFromKeyAndValue state_a"
    unfolding state_a_def by (rule reach_init) (auto simp: wf_map_def)
  show "wf_diff sample_issueFromKeyAndValue (filters state_a) (issueOrder state_a)
     (allIssuesMap state_a, viewIssueCount state_a, filteredIssues state_a) diff_bc"
    unfolding diff_bc_def state_a_eval
    by (simp add: diff_bc_steps del: applyDiffOp.simps)
qed

text \<open>The invariant on the sample state, whose list is not empty.\<close>

lemma sample_time [simp]:
  "time_of MODIFIED (sample_issueFromKeyAndValue k issue_a) = 5000"
  "time_of MODIFIED (sample_issueFromKeyAndValue k issue_b) = 4000"
  by (simp_all add: time_of_def sample_issueFromKeyAndValue_def issue_a_def issue_b_def
        issue_value_def)

theorem reducer_filtered_list_from_scratch_witness:
  "id_determines_key sample_issueFromKeyAndValue
   \<and> reachable sample_issueFromKeyAndValue state_bc
   \<and> filteredIssues state_bc
       = filterAndSort (filters state_bc) (issueOrder state_bc) (map snd (allIssuesMap state_bc))
   \<and> filteredIssues state_bc
       = [sample_issueFromKeyAndValue ''c'' issue_a, sample_issueFromKeyAndValue ''b'' issue_b]
   \<and> sorted_wrt (newer_first MODIFIED)
        [sample_issueFromKeyAndValue ''c'' issue_a, sample_issueFromKeyAndValue ''b'' issue_b]"
proof -
  note t = reducer_filtered_list_from_scratch[OF sample_id_determines_key state_bc_reachable]
  have l: "filteredIssues state_bc
       = [sample_issueFromKeyAndValue ''c'' issue_a, sample_issueFromKeyAndValue ''b'' issue_b]"
    by (simp add: state_bc_eval)
  have r: "\<forall>i \<in> set (filteredIssues state_bc).
             0 \<le> time_of (issueOrder state_bc) i
             \<and> time_of (issueOrder state_bc) i \<le> 8007199254740991"
    by (simp add: state_bc_eval)
  from t r have "sorted_wrt (newer_first (issueOrder state_bc)) (filteredIssues state_bc)"
    by blast
  then have s: "sorted_wrt (newer_first MODIFIED)
        [sample_issueFromKeyAndValue ''c'' issue_a, sample_issueFromKeyAndValue ''b'' issue_b]"
    by (simp add: state_bc_eval)
  from t have e: "filteredIssues state_bc
       = filterAndSort (filters state_bc) (issueOrder state_bc) (map snd (allIssuesMap state_bc))"
    by blast
  show ?thesis
    by (intro conjI sample_id_determines_key state_bc_reachable e l s)
qed

text \<open>
  C8. In every state, \<open>setIssueOrder\<close> leaves in \<open>filteredIssues\<close> a permutation of
  the list it found, sorted by the key of the new order, sets \<open>issueOrder\<close>, and leaves
  \<open>allIssuesMap\<close>, \<open>viewIssueCount\<close> and \<open>filters\<close> as they were.
\<close>

theorem setIssueOrder_resorts:
  "mset (filteredIssues (reducer f s (SetIssueOrder ord))) = mset (filteredIssues s)
   \<and> sorted (map (order ord) (filteredIssues (reducer f s (SetIssueOrder ord))))
   \<and> allIssuesMap (reducer f s (SetIssueOrder ord)) = allIssuesMap s
   \<and> viewIssueCount (reducer f s (SetIssueOrder ord)) = viewIssueCount s
   \<and> filters (reducer f s (SetIssueOrder ord)) = filters s
   \<and> issueOrder (reducer f s (SetIssueOrder ord)) = ord"
  by (simp add: reducer_def sortBy_def)

theorem setIssueOrder_resorts_witness:
  "filteredIssues state_bc
     = [sample_issueFromKeyAndValue ''c'' issue_a, sample_issueFromKeyAndValue ''b'' issue_b]
   \<and> filteredIssues (reducer sample_issueFromKeyAndValue state_bc (SetIssueOrder CREATED))
     = [sample_issueFromKeyAndValue ''b'' issue_b, sample_issueFromKeyAndValue ''c'' issue_a]
   \<and> allIssuesMap (reducer sample_issueFromKeyAndValue state_bc (SetIssueOrder CREATED))
     = allIssuesMap state_bc"
  using setIssueOrder_resorts[of sample_issueFromKeyAndValue state_bc CREATED]
  by (simp add: state_bc_eval reducer_steps)

section \<open>An add applied twice\<close>

lemma reducer_add:
  "reducer f s (Diff [DiffAdd k v]) =
     s\<lparr>allIssuesMap := AList.update k (f k v) (allIssuesMap s),
       viewIssueCount := (if Filter_filter (viewFilter (filters s)) (f k v)
                          then viewIssueCount s + 1 else viewIssueCount s),
       filteredIssues := (if Filters_filter (filters s) (f k v)
                          then splice_in (sortedIndexBy (filteredIssues s) (f k v) (order (issueOrder s)))
                                 (f k v) (filteredIssues s)
                          else filteredIssues s)\<rparr>"
  by (simp add: reducer_def Let_def)

lemma mset_splice_in: "mset (splice_in i x xs) = mset xs + {#x#}"
proof -
  have "mset (take i xs @ drop i xs) = mset xs" by simp
  then have "mset (take i xs) + mset (drop i xs) = mset xs" by (simp only: mset_append)
  then show ?thesis by (simp add: splice_in_def)
qed

text \<open>
  C3, as the code has it. Applying an \<open>add\<close> a second time (in a second diff or twice
  in one diff, which is the same) leaves \<open>allIssuesMap\<close> as the first application
  left it, but counts the issue again when it passes the view filter and inserts it again
  when it passes the combined filter: the count and the list stay the same exactly when
  the issue does not pass the view filter.
\<close>

theorem add_twice:
  "reducer f s (Diff [DiffAdd k v, DiffAdd k v])
     = reducer f (reducer f s (Diff [DiffAdd k v])) (Diff [DiffAdd k v])
   \<and> allIssuesMap (reducer f (reducer f s (Diff [DiffAdd k v])) (Diff [DiffAdd k v]))
     = allIssuesMap (reducer f s (Diff [DiffAdd k v]))
   \<and> viewIssueCount (reducer f (reducer f s (Diff [DiffAdd k v])) (Diff [DiffAdd k v]))
     = viewIssueCount (reducer f s (Diff [DiffAdd k v]))
       + (if Filter_filter (viewFilter (filters s)) (f k v) then 1 else 0)
   \<and> mset (filteredIssues (reducer f (reducer f s (Diff [DiffAdd k v])) (Diff [DiffAdd k v])))
     = mset (filteredIssues (reducer f s (Diff [DiffAdd k v])))
       + (if Filters_filter (filters s) (f k v) then {#f k v#} else {#})
   \<and> ((viewIssueCount (reducer f (reducer f s (Diff [DiffAdd k v])) (Diff [DiffAdd k v]))
          = viewIssueCount (reducer f s (Diff [DiffAdd k v]))
        \<and> filteredIssues (reducer f (reducer f s (Diff [DiffAdd k v])) (Diff [DiffAdd k v]))
          = filteredIssues (reducer f s (Diff [DiffAdd k v])))
       \<longleftrightarrow> \<not> Filter_filter (viewFilter (filters s)) (f k v))"
proof -
  let ?s1 = "reducer f s (Diff [DiffAdd k v])"
  let ?s2 = "reducer f ?s1 (Diff [DiffAdd k v])"
  have f1: "filters ?s1 = filters s" "issueOrder ?s1 = issueOrder s" by (simp_all add: reducer_add)
  have a: "reducer f s (Diff [DiffAdd k v, DiffAdd k v]) = ?s2"
    by (simp add: reducer_def Let_def)
  have m: "allIssuesMap ?s2 = allIssuesMap ?s1"
    by (simp add: reducer_add[of f ?s1] f1) (simp add: reducer_add)
  have c: "viewIssueCount ?s2 = viewIssueCount ?s1
       + (if Filter_filter (viewFilter (filters s)) (f k v) then 1 else 0)"
    by (simp add: reducer_add[of f ?s1] f1)
  have l: "mset (filteredIssues ?s2) = mset (filteredIssues ?s1)
       + (if Filters_filter (filters s) (f k v) then {#f k v#} else {#})"
    by (simp add: reducer_add[of f ?s1] f1 mset_splice_in)
  have i: "(viewIssueCount ?s2 = viewIssueCount ?s1 \<and> filteredIssues ?s2 = filteredIssues ?s1)
       \<longleftrightarrow> \<not> Filter_filter (viewFilter (filters s)) (f k v)"
  proof (cases "Filter_filter (viewFilter (filters s)) (f k v)")
    case True
    with c show ?thesis by simp
  next
    case False
    then have "\<not> Filters_filter (filters s) (f k v)" by (simp add: Filters_filter_def)
    with False c show ?thesis by (simp add: reducer_add[of f ?s1] f1)
  qed
  show ?thesis using a m c l i by simp
qed

text \<open>
  The claim as stated fails: issue \<open>a\<close> is in the map of \<open>state_a\<close> with this value
  and passes the view filter; one more \<open>add\<close> of it gives count 2 and a list of two,
  a second one count 3 and a list of three.
\<close>

theorem add_twice_counterexample:
  "map_of (allIssuesMap state_a) ''a'' = Some (sample_issueFromKeyAndValue ''a'' issue_a)
   \<and> viewIssueCount (reducer sample_issueFromKeyAndValue state_a (Diff [DiffAdd ''a'' issue_a])) = 2
   \<and> viewIssueCount
        (reducer sample_issueFromKeyAndValue
           (reducer sample_issueFromKeyAndValue state_a (Diff [DiffAdd ''a'' issue_a]))
           (Diff [DiffAdd ''a'' issue_a])) = 3
   \<and> length (filteredIssues
        (reducer sample_issueFromKeyAndValue state_a (Diff [DiffAdd ''a'' issue_a]))) = 2
   \<and> length (filteredIssues
        (reducer sample_issueFromKeyAndValue
           (reducer sample_issueFromKeyAndValue state_a (Diff [DiffAdd ''a'' issue_a]))
           (Diff [DiffAdd ''a'' issue_a]))) = 3"
  by (simp add: state_a_eval reducer_steps)

theorem add_twice_witness:
  "Filter_filter (viewFilter (filters state_a)) (sample_issueFromKeyAndValue ''a'' issue_a)
   \<and> viewIssueCount
        (reducer sample_issueFromKeyAndValue
           (reducer sample_issueFromKeyAndValue state_a (Diff [DiffAdd ''a'' issue_a]))
           (Diff [DiffAdd ''a'' issue_a]))
      = viewIssueCount (reducer sample_issueFromKeyAndValue state_a (Diff [DiffAdd ''a'' issue_a])) + 1
   \<and> \<not> Filter_filter (viewFilter (filters state_a)) (sample_issueFromKeyAndValue ''c'' issue_c)
   \<and> filteredIssues
        (reducer sample_issueFromKeyAndValue
           (reducer sample_issueFromKeyAndValue state_a (Diff [DiffAdd ''c'' issue_c]))
           (Diff [DiffAdd ''c'' issue_c]))
      = filteredIssues (reducer sample_issueFromKeyAndValue state_a (Diff [DiffAdd ''c'' issue_c]))"
  using add_twice[of sample_issueFromKeyAndValue state_a "''a''" issue_a]
    add_twice[of sample_issueFromKeyAndValue state_a "''c''" issue_c]
  by (simp add: state_a_eval Filter_filter_def active_filters_def sample_issueFromKeyAndValue_def
        issue_a_def issue_c_def issue_value_def)

end
